theory Spec2Isabelle
  imports Main "HOL-Library.Word" "HOL-Library.Tree" "HOL-Library.Monad_Syntax"
begin

section \<open>The node store and the tree object\<close>

text \<open>
  The tree of \<^verbatim>\<open>include/tinystl/avl_tree.h\<close> is intrusive: a node is an object of the
  caller, found by its address, and the tree only rewrites the link fields of such objects.
  A pointer is an optional address (\<open>None\<close> is \<^verbatim>\<open>nullptr\<close>); the node objects live in a
  store from addresses to records. The embedded element (the derived class \<^verbatim>\<open>T\<close>) is the
  field \<open>val\<close>, and the comparator \<^verbatim>\<open>value_comp()\<close> is the default \<^verbatim>\<open>std::less<T>\<close>, the
  order \<open><\<close> of a linearly ordered type.

  \<^verbatim>\<open>mSize\<close> is a \<^verbatim>\<open>size_t\<close> that the code increments and decrements, so it is a 64-bit
  word. \<^verbatim>\<open>mHeight\<close> is a \<^verbatim>\<open>size_t\<close> that is only ever set to one more than another stored
  height; it is a natural number, and the one place where the code narrows it
  (\<^verbatim>\<open>static_cast<int32_t>\<close> in \<^verbatim>\<open>rebalance\<close>) is written out as \<open>int32\<close>.

  A function returns \<open>None\<close> where the C++ dereferences a null pointer or fails an
  \<^verbatim>\<open>assert\<close>, and where a loop does not come to an end.
\<close>

type_synonym addr = nat
type_synonym ptr = "addr option"

record 'a avl_node =
  mParent :: ptr
  mLeft :: ptr
  mRight :: ptr
  mHeight :: nat
  val :: 'a

record 'a avl_tree =
  mSize :: "64 word"
  mRoot :: ptr
  nodes :: "addr \<Rightarrow> 'a avl_node"

definition parent_of :: "'a avl_tree \<Rightarrow> addr \<Rightarrow> ptr" where
  "parent_of t a = mParent (nodes t a)"

definition left_of :: "'a avl_tree \<Rightarrow> addr \<Rightarrow> ptr" where
  "left_of t a = mLeft (nodes t a)"

definition right_of :: "'a avl_tree \<Rightarrow> addr \<Rightarrow> ptr" where
  "right_of t a = mRight (nodes t a)"

definition height_of :: "'a avl_tree \<Rightarrow> addr \<Rightarrow> nat" where
  "height_of t a = mHeight (nodes t a)"

definition set_parent :: "addr \<Rightarrow> ptr \<Rightarrow> 'a avl_tree \<Rightarrow> 'a avl_tree" where
  "set_parent a p t = t\<lparr>nodes := (nodes t)(a := (nodes t a)\<lparr>mParent := p\<rparr>)\<rparr>"

definition set_left :: "addr \<Rightarrow> ptr \<Rightarrow> 'a avl_tree \<Rightarrow> 'a avl_tree" where
  "set_left a p t = t\<lparr>nodes := (nodes t)(a := (nodes t a)\<lparr>mLeft := p\<rparr>)\<rparr>"

definition set_right :: "addr \<Rightarrow> ptr \<Rightarrow> 'a avl_tree \<Rightarrow> 'a avl_tree" where
  "set_right a p t = t\<lparr>nodes := (nodes t)(a := (nodes t a)\<lparr>mRight := p\<rparr>)\<rparr>"

definition set_height :: "addr \<Rightarrow> nat \<Rightarrow> 'a avl_tree \<Rightarrow> 'a avl_tree" where
  "set_height a h t = t\<lparr>nodes := (nodes t)(a := (nodes t a)\<lparr>mHeight := h\<rparr>)\<rparr>"

text \<open>\<^verbatim>\<open>p ? p->height() : size_type(0)\<close>\<close>

definition height_or_0 :: "'a avl_tree \<Rightarrow> ptr \<Rightarrow> nat" where
  "height_or_0 t p = (case p of None \<Rightarrow> 0 | Some a \<Rightarrow> height_of t a)"

text \<open>\<^verbatim>\<open>static_cast<int32_t>(h)\<close>: the low 32 bits of \<open>h\<close>, read as a signed number.\<close>

definition int32 :: "nat \<Rightarrow> int" where
  "int32 h = sint (word_of_nat h :: 32 word)"

section \<open>avl_node\<close>

definition is_left :: "'a avl_tree \<Rightarrow> addr \<Rightarrow> bool" where
  "is_left t this = (case parent_of t this of None \<Rightarrow> False | Some p \<Rightarrow> left_of t p = Some this)"

definition is_right :: "'a avl_tree \<Rightarrow> addr \<Rightarrow> bool" where
  "is_right t this = (case parent_of t this of None \<Rightarrow> False | Some p \<Rightarrow> right_of t p = Some this)"

definition update_height :: "addr \<Rightarrow> 'a avl_tree \<Rightarrow> 'a avl_tree" where
  "update_height this t =
     set_height this (max (height_or_0 t (left_of t this)) (height_or_0 t (right_of t this)) + 1) t"

partial_function (option) leftmost :: "'a avl_tree \<Rightarrow> addr \<Rightarrow> addr option" where
  "leftmost t node = (case left_of t node of None \<Rightarrow> Some node | Some l \<Rightarrow> leftmost t l)"

partial_function (option) rightmost :: "'a avl_tree \<Rightarrow> addr \<Rightarrow> addr option" where
  "rightmost t node = (case right_of t node of None \<Rightarrow> Some node | Some r \<Rightarrow> rightmost t r)"

text \<open>
  The \<^verbatim>\<open>for (;;)\<close> loops of \<^verbatim>\<open>next\<close> and \<^verbatim>\<open>prev\<close>: climb while the node left behind is
  not the left (for \<^verbatim>\<open>prev\<close>: the right) child of the node reached.
\<close>

partial_function (option) next_up :: "'a avl_tree \<Rightarrow> addr \<Rightarrow> ptr option" where
  "next_up t lst =
     (case parent_of t lst of
        None \<Rightarrow> Some None
      | Some node \<Rightarrow> if left_of t node = Some lst then Some (Some node) else next_up t node)"

partial_function (option) prev_up :: "'a avl_tree \<Rightarrow> addr \<Rightarrow> ptr option" where
  "prev_up t lst =
     (case parent_of t lst of
        None \<Rightarrow> Some None
      | Some node \<Rightarrow> if right_of t node = Some lst then Some (Some node) else prev_up t node)"

definition next_node :: "'a avl_tree \<Rightarrow> addr \<Rightarrow> ptr option" where
  "next_node t this =
     (case right_of t this of
        Some r \<Rightarrow> map_option Some (leftmost t r)
      | None \<Rightarrow> next_up t this)"

definition prev_node :: "'a avl_tree \<Rightarrow> addr \<Rightarrow> ptr option" where
  "prev_node t this =
     (case left_of t this of
        Some l \<Rightarrow> map_option Some (rightmost t l)
      | None \<Rightarrow> prev_up t this)"

definition replace_as_child :: "addr \<Rightarrow> ptr \<Rightarrow> ptr \<Rightarrow> 'a avl_tree \<Rightarrow> 'a avl_tree" where
  "replace_as_child this node par t =
     (case par of
        Some p \<Rightarrow> if left_of t p = Some this then set_left p node t else set_right p node t
      | None \<Rightarrow> t\<lparr>mRoot := node\<rparr>)"

definition replace :: "addr \<Rightarrow> addr \<Rightarrow> 'a avl_tree \<Rightarrow> 'a avl_tree" where
  "replace this node t =
     (let t1 = replace_as_child this (Some node) (parent_of t this) t;
          t2 = (case left_of t1 this of Some l \<Rightarrow> set_parent l (Some node) t1 | None \<Rightarrow> t1);
          t3 = (case right_of t2 this of Some r \<Rightarrow> set_parent r (Some node) t2 | None \<Rightarrow> t2);
          t4 = set_left node (left_of t3 this) t3;
          t5 = set_right node (right_of t4 this) t4;
          t6 = set_parent node (parent_of t5 this) t5
      in set_height node (height_of t6 this) t6)"

definition rotate_left :: "addr \<Rightarrow> 'a avl_tree \<Rightarrow> (addr \<times> 'a avl_tree) option" where
  "rotate_left this t =
     (case right_of t this of
        None \<Rightarrow> None
      | Some r \<Rightarrow>
          let par = parent_of t this;
              t1 = set_right this (left_of t r) t;
              t2 = (case right_of t1 this of Some x \<Rightarrow> set_parent x (Some this) t1 | None \<Rightarrow> t1);
              t3 = set_left r (Some this) t2;
              t4 = set_parent r par t3;
              t5 = replace_as_child this (Some r) par t4
          in Some (r, set_parent this (Some r) t5))"

definition rotate_right :: "addr \<Rightarrow> 'a avl_tree \<Rightarrow> (addr \<times> 'a avl_tree) option" where
  "rotate_right this t =
     (case left_of t this of
        None \<Rightarrow> None
      | Some l \<Rightarrow>
          let par = parent_of t this;
              t1 = set_left this (right_of t l) t;
              t2 = (case right_of t1 l of Some x \<Rightarrow> set_parent x (Some this) t1 | None \<Rightarrow> t1);
              t3 = set_right l (Some this) t2;
              t4 = set_parent l par t3;
              t5 = replace_as_child this (Some l) par t4
          in Some (l, set_parent this (Some l) t5))"

definition fix_left :: "addr \<Rightarrow> 'a avl_tree \<Rightarrow> (addr \<times> 'a avl_tree) option" where
  "fix_left this t =
     (case right_of t this of
        None \<Rightarrow> None
      | Some r \<Rightarrow>
          let rh0 = height_or_0 t (left_of t r);
              rh1 = height_or_0 t (right_of t r)
          in do {
            t1 \<leftarrow> (if rh0 > rh1 then do {
                     (r', s) \<leftarrow> rotate_right r t;
                     rr \<leftarrow> right_of s r';
                     Some (update_height r' (update_height rr s)) }
                   else Some t);
            (node, t2) \<leftarrow> rotate_left this t1;
            nl \<leftarrow> left_of t2 node;
            Some (node, update_height node (update_height nl t2)) })"

definition fix_right :: "addr \<Rightarrow> 'a avl_tree \<Rightarrow> (addr \<times> 'a avl_tree) option" where
  "fix_right this t =
     (case left_of t this of
        None \<Rightarrow> None
      | Some l \<Rightarrow>
          let rh0 = height_or_0 t (left_of t l);
              rh1 = height_or_0 t (right_of t l)
          in do {
            t1 \<leftarrow> (if rh0 < rh1 then do {
                     (l', s) \<leftarrow> rotate_left l t;
                     ll \<leftarrow> left_of s l';
                     Some (update_height l' (update_height ll s)) }
                   else Some t);
            (node, t2) \<leftarrow> rotate_right this t1;
            nr \<leftarrow> right_of t2 node;
            Some (node, update_height node (update_height nr t2)) })"

text \<open>
  The loop of \<^verbatim>\<open>rebalance\<close>, one call per iteration; the argument is the loop variable
  \<^verbatim>\<open>node\<close>, and the recursive call is made on \<^verbatim>\<open>node->parent()\<close>.
\<close>

partial_function (option) rebalance_loop :: "ptr \<Rightarrow> 'a avl_tree \<Rightarrow> 'a avl_tree option" where
  "rebalance_loop node t =
     (case node of
        None \<Rightarrow> Some t
      | Some n \<Rightarrow>
          let hl = height_or_0 t (left_of t n);
              hr = height_or_0 t (right_of t n);
              h = max hl hr + 1
          in if height_of t n = h then Some t
             else
               let t1 = set_height n h t;
                   diff = int32 hl - int32 hr
               in if diff \<le> - 2 then do {
                       (n', t2) \<leftarrow> fix_left n t1;
                       rebalance_loop (parent_of t2 n') t2 }
                  else if diff \<ge> 2 then do {
                       (n', t2) \<leftarrow> fix_right n t1;
                       rebalance_loop (parent_of t2 n') t2 }
                  else rebalance_loop (parent_of t1 n) t1)"

definition rebalance :: "addr \<Rightarrow> 'a avl_tree \<Rightarrow> 'a avl_tree option" where
  "rebalance this t = rebalance_loop (Some this) t"

definition fix_insert :: "addr \<Rightarrow> 'a avl_tree \<Rightarrow> 'a avl_tree option" where
  "fix_insert this t =
     (let t1 = set_height this 1 (set_left this None (set_right this None t))
      in case parent_of t1 this of Some p \<Rightarrow> rebalance p t1 | None \<Rightarrow> Some t1)"

section \<open>avl_tree\<close>

definition empty_avl :: "'a avl_tree \<Rightarrow> bool" where
  "empty_avl t = (mSize t \<noteq> 0)"

definition size_avl :: "'a avl_tree \<Rightarrow> 64 word" where
  "size_avl t = mSize t"

definition root :: "'a avl_tree \<Rightarrow> ptr" where
  "root t = mRoot t"

text \<open>The first branch of the three insertions: the node becomes the root.\<close>

definition link_as_root :: "addr \<Rightarrow> 'a avl_tree \<Rightarrow> 'a avl_tree" where
  "link_as_root node t =
     set_height node 1
       (set_parent node None (set_left node None (set_right node None (t\<lparr>mRoot := Some node\<rparr>))))"

text \<open>
  \<^verbatim>\<open>current->mLeft = node; node->mParent = current; node->fix_insert(*this); mSize += 1\<close>
  and the same on the right.
\<close>

definition link_left :: "addr \<Rightarrow> addr \<Rightarrow> 'a avl_tree \<Rightarrow> 'a avl_tree option" where
  "link_left node current t = do {
     t' \<leftarrow> fix_insert node (set_parent node (Some current) (set_left current (Some node) t));
     Some (t'\<lparr>mSize := mSize t' + 1\<rparr>) }"

definition link_right :: "addr \<Rightarrow> addr \<Rightarrow> 'a avl_tree \<Rightarrow> 'a avl_tree option" where
  "link_right node current t = do {
     t' \<leftarrow> fix_insert node (set_parent node (Some current) (set_right current (Some node) t));
     Some (t'\<lparr>mSize := mSize t' + 1\<rparr>) }"

partial_function (option) insert_unique_loop ::
  "addr \<Rightarrow> addr \<Rightarrow> ('a::linorder) avl_tree \<Rightarrow> (bool \<times> 'a avl_tree) option" where
  "insert_unique_loop node current t =
     (if val (nodes t node) < val (nodes t current) then
        (case left_of t current of
           Some l \<Rightarrow> insert_unique_loop node l t
         | None \<Rightarrow> map_option (Pair True) (link_left node current t))
      else if val (nodes t current) < val (nodes t node) then
        (case right_of t current of
           Some r \<Rightarrow> insert_unique_loop node r t
         | None \<Rightarrow> map_option (Pair True) (link_right node current t))
      else Some (False, t))"

definition insert_unique :: "addr \<Rightarrow> ('a::linorder) avl_tree \<Rightarrow> (bool \<times> 'a avl_tree) option" where
  "insert_unique node t =
     (case root t of
        None \<Rightarrow> (let t' = link_as_root node t in Some (True, t'\<lparr>mSize := mSize t' + 1\<rparr>))
      | Some current \<Rightarrow> insert_unique_loop node current t)"

partial_function (option) insert_or_replace_loop ::
  "addr \<Rightarrow> addr \<Rightarrow> ('a::linorder) avl_tree \<Rightarrow> (ptr \<times> 'a avl_tree) option" where
  "insert_or_replace_loop node current t =
     (if val (nodes t current) < val (nodes t node) then
        (case left_of t current of
           Some l \<Rightarrow> insert_or_replace_loop node l t
         | None \<Rightarrow> map_option (Pair None) (link_left node current t))
      else if val (nodes t node) < val (nodes t current) then
        (case right_of t current of
           Some r \<Rightarrow> insert_or_replace_loop node r t
         | None \<Rightarrow> map_option (Pair None) (link_right node current t))
      else Some (Some current, replace current node t))"

definition insert_or_replace :: "addr \<Rightarrow> ('a::linorder) avl_tree \<Rightarrow> (ptr \<times> 'a avl_tree) option" where
  "insert_or_replace node t =
     (case root t of
        None \<Rightarrow> Some (None, link_as_root node t)
      | Some current \<Rightarrow> insert_or_replace_loop node current t)"

partial_function (option) insert_multi_loop ::
  "addr \<Rightarrow> addr \<Rightarrow> ('a::linorder) avl_tree \<Rightarrow> 'a avl_tree option" where
  "insert_multi_loop node current t =
     (if val (nodes t node) < val (nodes t current) then
        (case left_of t current of
           Some l \<Rightarrow> insert_multi_loop node l t
         | None \<Rightarrow> link_left node current t)
      else if val (nodes t current) < val (nodes t node) then
        (case right_of t current of
           Some r \<Rightarrow> insert_multi_loop node r t
         | None \<Rightarrow> link_right node current t)
      else
        (case left_of t current of
           None \<Rightarrow> link_left node current t
         | Some l \<Rightarrow>
            (case right_of t current of
               None \<Rightarrow> link_right node current t
             | Some r \<Rightarrow>
                 if height_of t l < height_of t r then insert_multi_loop node l t
                 else insert_multi_loop node r t)))"

definition insert_multi :: "addr \<Rightarrow> ('a::linorder) avl_tree \<Rightarrow> 'a avl_tree option" where
  "insert_multi node t =
     (case root t of
        None \<Rightarrow> (let t' = link_as_root node t in Some (t'\<lparr>mSize := mSize t' + 1\<rparr>))
      | Some current \<Rightarrow> insert_multi_loop node current t)"

text \<open>
  The two relinking steps of the first branch of \<^verbatim>\<open>erase\<close>. \<open>splice_out node\<close> is
  \<^verbatim>\<open>child = node->right(); parent = node->parent(); if (child) child->mParent = parent;
  node->replace_as_child(child, parent, *this)\<close>: the right child of \<open>node\<close> takes its place.
  \<open>take_place node old\<close> is the part from \<^verbatim>\<open>node->mLeft = old->left()\<close> to
  \<^verbatim>\<open>old->right()->mParent = node\<close>: \<open>node\<close> takes the place of \<open>old\<close>. The \<^verbatim>\<open>assert\<close> and the
  dereference of \<^verbatim>\<open>old->left()\<close> fail when that pointer is null.
\<close>

definition splice_out :: "addr \<Rightarrow> 'a avl_tree \<Rightarrow> 'a avl_tree" where
  "splice_out node t =
     (let child = right_of t node;
          par = parent_of t node;
          t1 = (case child of Some c \<Rightarrow> set_parent c par t | None \<Rightarrow> t)
      in replace_as_child node child par t1)"

definition take_place :: "addr \<Rightarrow> addr \<Rightarrow> 'a avl_tree \<Rightarrow> 'a avl_tree option" where
  "take_place node old t =
     (let t3 = set_left node (left_of t old) t;
          t4 = set_right node (right_of t3 old) t3;
          t5 = set_parent node (parent_of t4 old) t4;
          t6 = set_height node (height_of t5 old) t5;
          t7 = replace_as_child old (Some node) (parent_of t6 old) t6
      in case left_of t7 old of
           None \<Rightarrow> None
         | Some ol \<Rightarrow>
             let t8 = set_parent ol (Some node) t7
             in Some (case right_of t8 old of Some x \<Rightarrow> set_parent x (Some node) t8 | None \<Rightarrow> t8))"

text \<open>
  \<^verbatim>\<open>erase\<close> up to its last two statements: the relinking, and the node \<^verbatim>\<open>parent\<close> the
  rebalance walk will start from.
\<close>

definition erase_unlink :: "addr \<Rightarrow> 'a avl_tree \<Rightarrow> (ptr \<times> 'a avl_tree) option" where
  "erase_unlink obj t =
     (if left_of t obj \<noteq> None \<and> right_of t obj \<noteq> None then do {
        let old = obj;
        r \<leftarrow> right_of t old;
        node \<leftarrow> leftmost t r;
        let par = parent_of t node;
        let t2 = splice_out node t;
        let par' = (if parent_of t2 node = Some old then Some node else par);
        t9 \<leftarrow> take_place node old t2;
        Some (par', t9) }
      else
        (let child = (if left_of t obj = None then right_of t obj else left_of t obj);
             par = parent_of t obj;
             t1 = replace_as_child obj child par t;
             t2 = (case child of Some c \<Rightarrow> set_parent c par t1 | None \<Rightarrow> t1)
         in Some (par, t2)))"

definition erase :: "addr \<Rightarrow> 'a avl_tree \<Rightarrow> 'a avl_tree option" where
  "erase obj t = do {
     (par, t1) \<leftarrow> erase_unlink obj t;
     t2 \<leftarrow> (case par of Some p \<Rightarrow> rebalance p t1 | None \<Rightarrow> Some t1);
     Some (t2\<lparr>mSize := mSize t2 - 1\<rparr>) }"

partial_function (option) find_loop :: "('a::linorder) avl_tree \<Rightarrow> 'a \<Rightarrow> ptr \<Rightarrow> ptr option" where
  "find_loop t v node =
     (case node of
        None \<Rightarrow> Some None
      | Some n \<Rightarrow>
          if v < val (nodes t n) then find_loop t v (left_of t n)
          else if val (nodes t n) < v then find_loop t v (right_of t n)
          else Some (Some n))"

definition find_avl :: "('a::linorder) avl_tree \<Rightarrow> 'a \<Rightarrow> ptr option" where
  "find_avl t v = find_loop t v (root t)"

text \<open>
  \<^verbatim>\<open>clear(handler)\<close>. The handler is the caller's: it is given the node and may do
  anything to the caller's world \<open>'w\<close> and to the store (the benchmark's handler zeroes the
  node with \<^verbatim>\<open>memset\<close>), so it is a function on the pair of both.
\<close>

partial_function (option) clear_impl ::
  "(addr \<Rightarrow> 'a avl_tree \<times> 'w \<Rightarrow> 'a avl_tree \<times> 'w) \<Rightarrow> addr \<Rightarrow> 'a avl_tree \<times> 'w
     \<Rightarrow> ('a avl_tree \<times> 'w) option" where
  "clear_impl handler node s =
     (let l = left_of (fst s) node;
          r = right_of (fst s) node;
          s1 = handler node s
      in do {
        s2 \<leftarrow> (case l of Some x \<Rightarrow> clear_impl handler x s1 | None \<Rightarrow> Some s1);
        (case r of Some y \<Rightarrow> clear_impl handler y s2 | None \<Rightarrow> Some s2) })"

definition clear_avl ::
  "(addr \<Rightarrow> 'a avl_tree \<times> 'w \<Rightarrow> 'a avl_tree \<times> 'w) \<Rightarrow> 'a avl_tree \<times> 'w
     \<Rightarrow> ('a avl_tree \<times> 'w) option" where
  "clear_avl handler s =
     (case root (fst s) of
        Some r \<Rightarrow> do {
          (t, w) \<leftarrow> clear_impl handler r s;
          Some (t\<lparr>mRoot := None, mSize := 0\<rparr>, w) }
      | None \<Rightarrow> Some s)"

section \<open>avl_tree_iterator\<close>

text \<open>
  An iterator holds the address of its tree object and a node pointer. The operators are
  given the state of the tree that \<^verbatim>\<open>mTree\<close> points to.
\<close>

record avl_tree_iterator =
  mTree :: ptr
  mPtr :: ptr

definition end_avl :: "addr \<Rightarrow> avl_tree_iterator" where
  "end_avl self = \<lparr>mTree = Some self, mPtr = None\<rparr>"

definition iterator_inc :: "'a avl_tree \<Rightarrow> avl_tree_iterator \<Rightarrow> avl_tree_iterator option" where
  "iterator_inc t it =
     (case mPtr it of
        Some p \<Rightarrow> map_option (\<lambda>q. it\<lparr>mPtr := q\<rparr>) (next_node t p)
      | None \<Rightarrow> Some it)"

definition iterator_dec :: "'a avl_tree \<Rightarrow> avl_tree_iterator \<Rightarrow> avl_tree_iterator option" where
  "iterator_dec t it =
     (case mPtr it of
        Some p \<Rightarrow> map_option (\<lambda>q. it\<lparr>mPtr := q\<rparr>) (prev_node t p)
      | None \<Rightarrow>
         (case mTree it of
            None \<Rightarrow> None
          | Some _ \<Rightarrow>
             (case root t of
                None \<Rightarrow> Some (it\<lparr>mPtr := None\<rparr>)
              | Some r \<Rightarrow> map_option (\<lambda>q. it\<lparr>mPtr := Some q\<rparr>) (rightmost t r))))"

section \<open>A fresh tree over fresh nodes\<close>

text \<open>
  \<^verbatim>\<open>avl_tree()\<close>: no root, size 0. Every node object is as \<^verbatim>\<open>avl_node()\<close> leaves it (null
  links, height 0); the node at address \<open>a\<close> carries the value \<open>vals a\<close>.
\<close>

definition avl_tree_init :: "(addr \<Rightarrow> 'a) \<Rightarrow> 'a avl_tree" where
  "avl_tree_init vals =
     \<lparr>mSize = 0, mRoot = None,
      nodes = (\<lambda>a. \<lparr>mParent = None, mLeft = None, mRight = None, mHeight = 0, val = vals a\<rparr>)\<rparr>"

section \<open>Sequences of calls\<close>

text \<open>
  \<^verbatim>\<open>insert_unique\<close> of the nodes at the given addresses, one after the other; the
  boolean results are dropped. \<open>insert_multi_all\<close> does the same with \<^verbatim>\<open>insert_multi\<close>.
\<close>

fun insert_all :: "addr list \<Rightarrow> ('a::linorder) avl_tree \<Rightarrow> 'a avl_tree option" where
  "insert_all [] t = Some t"
| "insert_all (n # ns) t = do { (_, t') \<leftarrow> insert_unique n t; insert_all ns t' }"

fun insert_multi_all :: "addr list \<Rightarrow> ('a::linorder) avl_tree \<Rightarrow> 'a avl_tree option" where
  "insert_multi_all [] t = Some t"
| "insert_multi_all (n # ns) t = do { t' \<leftarrow> insert_multi n t; insert_multi_all ns t' }"

text \<open>Five nodes, at the addresses 0 to 4, with the values 5, 3, 5, 8, 5.\<close>

definition five_values :: "addr \<Rightarrow> int" where
  "five_values a = (if a < 5 then [5, 3, 5, 8, 5] ! a else 0)"

text \<open>
  The handler of the benchmark, \<^verbatim>\<open>memset(p, 0, sizeof(IntElement))\<close>, with a log of its calls
  as the caller's world.
\<close>

definition memset_handler :: "addr \<Rightarrow> nat avl_tree \<times> addr list \<Rightarrow> nat avl_tree \<times> addr list" where
  "memset_handler a s =
     ((fst s)\<lparr>nodes := (nodes (fst s))
        (a := \<lparr>mParent = None, mLeft = None, mRight = None, mHeight = 0, val = 0\<rparr>)\<rparr>,
      snd s @ [a])"

section \<open>The link structure as a tree of addresses\<close>

text \<open>
  \<open>is_tree t p par T\<close>: the pointer \<open>p\<close> leads to the nodes of \<open>T\<close>, linked in the shape of
  \<open>T\<close>, and the topmost of them has the parent pointer \<open>par\<close>. The in-order traversal from
  the root is then \<open>inorder T\<close>, and \<open>vals t T\<close> are the values met on it.
\<close>

fun is_tree :: "'a avl_tree \<Rightarrow> ptr \<Rightarrow> ptr \<Rightarrow> addr tree \<Rightarrow> bool" where
  "is_tree t p par Leaf = (p = None)"
| "is_tree t p par (Node l a r) =
     (p = Some a \<and> parent_of t a = par \<and>
      is_tree t (left_of t a) (Some a) l \<and> is_tree t (right_of t a) (Some a) r)"

definition wf_tree :: "'a avl_tree \<Rightarrow> addr tree \<Rightarrow> bool" where
  "wf_tree t T = (is_tree t (root t) None T \<and> distinct (inorder T))"

definition vals :: "'a avl_tree \<Rightarrow> addr tree \<Rightarrow> 'a list" where
  "vals t T = map (\<lambda>a. val (nodes t a)) (inorder T)"

text \<open>
  The stored heights are correct: every node of \<open>T\<close> holds the height of its subtree, one
  more than the greater of the heights of its children, where an absent child counts 0.
\<close>

fun heights_ok :: "'a avl_tree \<Rightarrow> addr tree \<Rightarrow> bool" where
  "heights_ok t Leaf = True"
| "heights_ok t (Node l a r) =
     (height_of t a = max (height l) (height r) + 1 \<and> heights_ok t l \<and> heights_ok t r)"

text \<open>
The pointer that leads to a tree.
\<close>

fun root_ptr :: "addr tree \<Rightarrow> ptr" where
  "root_ptr Leaf = None"
| "root_ptr (Node l a r) = Some a"

text \<open>
  \<open>is_tree\<close> without the parent pointers: what \<^verbatim>\<open>clear_impl\<close>, which only follows child
  links, depends on.
\<close>

fun is_shape :: "'a avl_tree \<Rightarrow> ptr \<Rightarrow> addr tree \<Rightarrow> bool" where
  "is_shape t p Leaf = (p = None)"
| "is_shape t p (Node l a r) =
     (p = Some a \<and> is_shape t (left_of t a) l \<and> is_shape t (right_of t a) r)"

section \<open>A node in its context\<close>

text \<open>
  The way from a node up to the root: at each step the parent and the subtree on its other
  side. \<open>LeftOf a sib\<close> says that the place below is the left child of \<open>a\<close>, whose right
  subtree is \<open>sib\<close>; \<open>RightOf sib a\<close> that it is the right child of \<open>a\<close>, whose left subtree
  is \<open>sib\<close>. \<open>plug C S\<close> is the whole tree when \<open>S\<close> stands at the place; \<open>ctx_before C\<close> and
  \<open>ctx_after C\<close> are the nodes that the in-order traversal meets before and after \<open>S\<close>.
\<close>

datatype frame = LeftOf addr "addr tree" | RightOf "addr tree" addr

fun plug :: "frame list \<Rightarrow> addr tree \<Rightarrow> addr tree" where
  "plug [] S = S"
| "plug (LeftOf a sib # C) S = plug C (Node S a sib)"
| "plug (RightOf sib a # C) S = plug C (Node sib a S)"

fun ctx_addrs :: "frame list \<Rightarrow> addr set" where
  "ctx_addrs [] = {}"
| "ctx_addrs (LeftOf a sib # C) = insert a (set_tree sib \<union> ctx_addrs C)"
| "ctx_addrs (RightOf sib a # C) = insert a (set_tree sib \<union> ctx_addrs C)"

fun ctx_before :: "frame list \<Rightarrow> addr list" where
  "ctx_before [] = []"
| "ctx_before (LeftOf a sib # C) = ctx_before C"
| "ctx_before (RightOf sib a # C) = ctx_before C @ inorder sib @ [a]"

fun ctx_after :: "frame list \<Rightarrow> addr list" where
  "ctx_after [] = []"
| "ctx_after (LeftOf a sib # C) = a # inorder sib @ ctx_after C"
| "ctx_after (RightOf sib a # C) = ctx_after C"

text \<open>
  \<open>is_ctx t C p par\<close>: the nodes of \<open>C\<close> are linked in the store as \<open>C\<close> says, the place of
  \<open>C\<close> holds the pointer \<open>p\<close> (in its parent's child field, or in the root field of the
  tree), and \<open>par\<close> points to that parent.
\<close>

fun is_ctx :: "'a avl_tree \<Rightarrow> frame list \<Rightarrow> ptr \<Rightarrow> ptr \<Rightarrow> bool" where
  "is_ctx t [] p par = (root t = p \<and> par = None)"
| "is_ctx t (LeftOf a sib # C) p par =
     (par = Some a \<and> left_of t a = p \<and> is_tree t (right_of t a) (Some a) sib \<and>
      is_ctx t C (Some a) (parent_of t a))"
| "is_ctx t (RightOf sib a # C) p par =
     (par = Some a \<and> right_of t a = p \<and> is_tree t (left_of t a) (Some a) sib \<and>
      is_ctx t C (Some a) (parent_of t a))"

text \<open>
  The stored heights along \<open>C\<close> are the correct ones for a subtree of height \<open>h\<close> at the
  place of \<open>C\<close>.
\<close>

fun ctx_heights :: "'a avl_tree \<Rightarrow> frame list \<Rightarrow> nat \<Rightarrow> bool" where
  "ctx_heights t [] h = True"
| "ctx_heights t (LeftOf a sib # C) h =
     (heights_ok t sib \<and> height_of t a = max h (height sib) + 1 \<and> ctx_heights t C (height_of t a))"
| "ctx_heights t (RightOf sib a # C) h =
     (heights_ok t sib \<and> height_of t a = max (height sib) h + 1 \<and> ctx_heights t C (height_of t a))"

text \<open>The left-most node of a subtree, with the chain of left links that leads to it.\<close>

fun left_spine :: "frame list \<Rightarrow> bool" where
  "left_spine [] = True"
| "left_spine (LeftOf a sib # D) = left_spine D"
| "left_spine (RightOf sib a # D) = False"

section \<open>What an operation leaves behind\<close>

text \<open>
  \<open>same_except A t t'\<close>: from \<open>t\<close> to \<open>t'\<close> the size and every value are unchanged, and so
  is every node object outside \<open>A\<close>.
\<close>

definition same_except :: "addr set \<Rightarrow> 'a avl_tree \<Rightarrow> 'a avl_tree \<Rightarrow> bool" where
  "same_except A t t' =
     (mSize t' = mSize t \<and> (\<forall>b. val (nodes t' b) = val (nodes t b)) \<and>
      (\<forall>b. b \<notin> A \<longrightarrow> nodes t' b = nodes t b))"

text \<open>
  \<open>linked t T node t'\<close>: what a successful insertion of \<open>node\<close> into the tree \<open>T\<close> of \<open>t\<close>
  leaves: a tree \<open>T'\<close> of \<open>t'\<close> in which \<open>node\<close> stands between two parts of the old in-order
  sequence, correct stored heights, the size one more, every value and every node outside
  the tree untouched.
\<close>

definition linked :: "'a avl_tree \<Rightarrow> addr tree \<Rightarrow> addr \<Rightarrow> addr list \<Rightarrow> addr list \<Rightarrow> 'a avl_tree \<Rightarrow> bool" where
  "linked t T node xs ys t' =
     (\<exists>T'. wf_tree t' T' \<and> inorder T = xs @ ys \<and> inorder T' = xs @ node # ys \<and>
           heights_ok t' T' \<and> mSize t' = mSize t + 1 \<and>
           (\<forall>b. val (nodes t' b) = val (nodes t b)) \<and>
           (\<forall>b. b \<notin> insert node (set_tree T) \<longrightarrow> nodes t' b = nodes t b))"

text \<open>
The values of \<open>xs\<close> are at most, and the values of \<open>ys\<close> at least, the value of \<open>node\<close>.
\<close>

definition between :: "('a::linorder) avl_tree \<Rightarrow> addr list \<Rightarrow> addr \<Rightarrow> addr list \<Rightarrow> bool" where
  "between t xs node ys =
     ((\<forall>x\<in>set xs. val (nodes t x) \<le> val (nodes t node)) \<and>
      (\<forall>y\<in>set ys. val (nodes t node) \<le> val (nodes t y)))"

text \<open>
  The condition on the handler of \<^verbatim>\<open>clear\<close>: called on a node, it may do anything to that
  node and to the caller's world, but it leaves the child links of all other nodes as they
  are. \<open>visit_all handler as\<close> calls the handler on the nodes \<open>as\<close>, one after the other.
\<close>

definition keeps_other_links :: "(addr \<Rightarrow> 'a avl_tree \<times> 'w \<Rightarrow> 'a avl_tree \<times> 'w) \<Rightarrow> bool" where
  "keeps_other_links handler =
     (\<forall>a s b. b \<noteq> a \<longrightarrow> left_of (fst (handler a s)) b = left_of (fst s) b \<and>
                         right_of (fst (handler a s)) b = right_of (fst s) b)"

definition visit_all ::
  "(addr \<Rightarrow> 'a avl_tree \<times> 'w \<Rightarrow> 'a avl_tree \<times> 'w) \<Rightarrow> addr list \<Rightarrow> 'a avl_tree \<times> 'w
     \<Rightarrow> 'a avl_tree \<times> 'w" where
  "visit_all handler as s = foldl (\<lambda>s a. handler a s) s as"

text \<open>
\<open>prev_walk t k a\<close>: the nodes met when \<^verbatim>\<open>prev\<close> is applied \<open>k\<close> times, starting at \<open>a\<close>.
\<close>

fun prev_walk :: "'a avl_tree \<Rightarrow> nat \<Rightarrow> addr \<Rightarrow> addr list option" where
  "prev_walk t 0 a = Some [a]"
| "prev_walk t (Suc k) a =
     (case prev_node t a of
        Some (Some b) \<Rightarrow> map_option ((#) a) (prev_walk t k b)
      | _ \<Rightarrow> None)"

section \<open>Evaluation\<close>

text \<open>The loops are evaluated through their defining equations.\<close>

declare leftmost.simps [code] rightmost.simps [code] next_up.simps [code] prev_up.simps [code]

declare rebalance_loop.simps [code] find_loop.simps [code] clear_impl.simps [code]

declare insert_unique_loop.simps [code] insert_or_replace_loop.simps [code]

declare insert_multi_loop.simps [code]

section \<open>Walking the tree\<close>

lemma rightmost_None: "right_of t a = None \<Longrightarrow> rightmost t a = Some a"
  by (subst rightmost.simps) simp

lemma rightmost_Some: "right_of t a = Some r \<Longrightarrow> rightmost t a = rightmost t r"
  by (subst rightmost.simps) simp

lemma leftmost_None: "left_of t a = None \<Longrightarrow> leftmost t a = Some a"
  by (subst leftmost.simps) simp

lemma leftmost_Some: "left_of t a = Some l \<Longrightarrow> leftmost t a = leftmost t l"
  by (subst leftmost.simps) simp

lemma rightmost_is_tree:
  "is_tree t (Some a) par T \<Longrightarrow> rightmost t a = Some (last (inorder T))"
proof (induction T arbitrary: a par)
  case Leaf
  then show ?case by simp
next
  case (Node l x r)
  then show ?case
    by (cases r) (auto simp: rightmost_None rightmost_Some)
qed

lemma leftmost_is_tree:
  "is_tree t (Some a) par T \<Longrightarrow> leftmost t a = Some (hd (inorder T))"
proof (induction T arbitrary: a par)
  case Leaf
  then show ?case by simp
next
  case (Node l x r)
  then show ?case
    by (cases l) (auto simp: leftmost_None leftmost_Some hd_append)
qed

lemma is_tree_root_mem: "is_tree t (Some a) par T \<Longrightarrow> a \<in> set_tree T"
  by (cases T) auto

lemma is_tree_None: "is_tree t None par T \<Longrightarrow> T = Leaf"
  by (cases T) auto

lemma is_tree_Some:
  "is_tree t (Some a) par T \<Longrightarrow>
   \<exists>l r. T = Node l a r \<and> parent_of t a = par \<and> is_tree t (left_of t a) (Some a) l \<and>
         is_tree t (right_of t a) (Some a) r"
  by (cases T) auto

lemma wf_tree_root:
  "wf_tree t T \<Longrightarrow> T \<noteq> Leaf \<Longrightarrow> \<exists>c. root t = Some c \<and> is_tree t (Some c) None T \<and> parent_of t c = None"
  unfolding wf_tree_def by (cases T) auto

lemma next_up_root: "parent_of t a = None \<Longrightarrow> next_up t a = Some None"
  by (subst next_up.simps) simp

lemma next_up_from_left:
  "parent_of t a = Some p \<Longrightarrow> left_of t p = Some a \<Longrightarrow> next_up t a = Some (Some p)"
  by (subst next_up.simps) simp

lemma next_up_from_right:
  "parent_of t a = Some p \<Longrightarrow> left_of t p \<noteq> Some a \<Longrightarrow> next_up t a = next_up t p"
  by (subst next_up.simps) simp

lemma prev_up_root: "parent_of t a = None \<Longrightarrow> prev_up t a = Some None"
  by (subst prev_up.simps) simp

lemma prev_up_from_right:
  "parent_of t a = Some p \<Longrightarrow> right_of t p = Some a \<Longrightarrow> prev_up t a = Some (Some p)"
  by (subst prev_up.simps) simp

lemma prev_up_from_left:
  "parent_of t a = Some p \<Longrightarrow> right_of t p \<noteq> Some a \<Longrightarrow> prev_up t a = prev_up t p"
  by (subst prev_up.simps) simp

text \<open>The successor of a node of a subtree: inside it, or where the climb from its root leads.\<close>

lemma next_node_subtree:
  "is_tree t (Some c) par T \<Longrightarrow> distinct (inorder T) \<Longrightarrow> inorder T = xs @ a # ys \<Longrightarrow>
   next_node t a = (case ys of [] \<Rightarrow> next_up t c | b # _ \<Rightarrow> Some (Some b))"
proof (induction T arbitrary: c par xs ys)
  case Leaf
  then show ?case by simp
next
  case (Node l x r)
  from Node.prems have cx: "c = x"
    and tl: "is_tree t (left_of t x) (Some x) l" and tr: "is_tree t (right_of t x) (Some x) r"
    and d: "distinct (inorder l)" "distinct (inorder r)" "x \<notin> set_tree l" "x \<notin> set_tree r"
      "set_tree l \<inter> set_tree r = {}"
    by auto
  have io: "inorder l @ x # inorder r = xs @ a # ys" using Node.prems by simp
  have "a \<in> set_tree l \<or> a = x \<or> a \<in> set_tree r"
    using arg_cong[OF io, of set] by auto
  then consider (L) "a \<in> set_tree l" | (M) "a = x" | (R) "a \<in> set_tree r" by blast
  then show ?case
  proof cases
    case L
    then obtain xs' ys' where s: "inorder l = xs' @ a # ys'"
      by (metis split_list set_inorder)
    with io have "xs' @ a # (ys' @ x # inorder r) = xs @ a # ys" by simp
    moreover have "a \<notin> set xs'" "a \<notin> set (ys' @ x # inorder r)"
      using s d L by auto
    ultimately have e: "xs = xs'" "ys = ys' @ x # inorder r"
      by (metis append_Cons_eq_iff)+
    from L tl obtain cl where cl: "left_of t x = Some cl" by (cases "left_of t x") (auto dest: is_tree_None)
    from tl cl have pcl: "parent_of t cl = Some x" by (auto dest: is_tree_Some)
    have "next_node t a = (case ys' of [] \<Rightarrow> next_up t cl | b # _ \<Rightarrow> Some (Some b))"
      using Node.IH(1)[of cl "Some x" xs' ys'] tl cl d s by simp
    then show ?thesis
      using e cl pcl by (cases ys') (auto simp: next_up_from_left)
  next
    case M
    with io d have e: "xs = inorder l" "ys = inorder r"
      by (metis append_Cons_eq_iff set_inorder)+
    show ?thesis
    proof (cases r)
      case Leaf
      with tr e M cx show ?thesis by (simp add: next_node_def)
    next
      case (Node rl y rr)
      with tr have "right_of t x = Some y" by simp
      moreover from this tr have "leftmost t y = Some (hd (inorder r))"
        by (metis leftmost_is_tree)
      ultimately show ?thesis
        using e M Node by (cases "inorder r") (auto simp: next_node_def)
    qed
  next
    case R
    then obtain xs' ys' where s: "inorder r = xs' @ a # ys'"
      by (metis split_list set_inorder)
    with io have "(inorder l @ x # xs') @ a # ys' = xs @ a # ys" by simp
    moreover have "a \<notin> set (inorder l @ x # xs')" "a \<notin> set ys'"
      using s d R by auto
    ultimately have e: "xs = inorder l @ x # xs'" "ys = ys'"
      by (metis append_Cons_eq_iff)+
    from R tr obtain cr where cr: "right_of t x = Some cr" by (cases "right_of t x") (auto dest: is_tree_None)
    from tr cr have pcr: "parent_of t cr = Some x" and crm: "cr \<in> set_tree r"
      by (auto dest: is_tree_Some is_tree_root_mem)
    have nl: "left_of t x \<noteq> Some cr"
    proof
      assume "left_of t x = Some cr"
      with tl have "cr \<in> set_tree l" by (auto dest: is_tree_root_mem)
      with crm d show False by auto
    qed
    have "next_node t a = (case ys' of [] \<Rightarrow> next_up t cr | b # _ \<Rightarrow> Some (Some b))"
      using Node.IH(2)[of cr "Some x" xs' ys'] tr cr d s by simp
    then show ?thesis
      using e cx pcr nl by (cases ys') (auto simp: next_up_from_right)
  qed
qed

lemma prev_node_subtree:
  "is_tree t (Some c) par T \<Longrightarrow> distinct (inorder T) \<Longrightarrow> inorder T = xs @ a # ys \<Longrightarrow>
   prev_node t a = (if xs = [] then prev_up t c else Some (Some (last xs)))"
proof (induction T arbitrary: c par xs ys)
  case Leaf
  then show ?case by simp
next
  case (Node l x r)
  from Node.prems have cx: "c = x"
    and tl: "is_tree t (left_of t x) (Some x) l" and tr: "is_tree t (right_of t x) (Some x) r"
    and d: "distinct (inorder l)" "distinct (inorder r)" "x \<notin> set_tree l" "x \<notin> set_tree r"
      "set_tree l \<inter> set_tree r = {}"
    by auto
  have io: "inorder l @ x # inorder r = xs @ a # ys" using Node.prems by simp
  have "a \<in> set_tree l \<or> a = x \<or> a \<in> set_tree r"
    using arg_cong[OF io, of set] by auto
  then consider (L) "a \<in> set_tree l" | (M) "a = x" | (R) "a \<in> set_tree r" by blast
  then show ?case
  proof cases
    case R
    then obtain xs' ys' where s: "inorder r = xs' @ a # ys'"
      by (metis split_list set_inorder)
    with io have "(inorder l @ x # xs') @ a # ys' = xs @ a # ys" by simp
    moreover have "a \<notin> set (inorder l @ x # xs')" "a \<notin> set ys'"
      using s d R by auto
    ultimately have e: "xs = inorder l @ x # xs'" "ys = ys'"
      by (metis append_Cons_eq_iff)+
    from R tr obtain cr where cr: "right_of t x = Some cr" by (cases "right_of t x") (auto dest: is_tree_None)
    from tr cr have pcr: "parent_of t cr = Some x" by (auto dest: is_tree_Some)
    have "prev_node t a = (if xs' = [] then prev_up t cr else Some (Some (last xs')))"
      using Node.IH(2)[of cr "Some x" xs' ys'] tr cr d s by simp
    then show ?thesis
      using e cr pcr by (auto simp: prev_up_from_right)
  next
    case M
    with io d have e: "xs = inorder l" "ys = inorder r"
      by (metis append_Cons_eq_iff set_inorder)+
    show ?thesis
    proof (cases l)
      case Leaf
      with tl e M cx show ?thesis by (simp add: prev_node_def)
    next
      case (Node ll y lr)
      with tl have "left_of t x = Some y" by simp
      moreover from this tl have "rightmost t y = Some (last (inorder l))"
        by (metis rightmost_is_tree)
      ultimately show ?thesis
        using e M Node by (auto simp: prev_node_def)
    qed
  next
    case L
    then obtain xs' ys' where s: "inorder l = xs' @ a # ys'"
      by (metis split_list set_inorder)
    with io have "xs' @ a # (ys' @ x # inorder r) = xs @ a # ys" by simp
    moreover have "a \<notin> set xs'" "a \<notin> set (ys' @ x # inorder r)"
      using s d L by auto
    ultimately have e: "xs = xs'" "ys = ys' @ x # inorder r"
      by (metis append_Cons_eq_iff)+
    from L tl obtain cl where cl: "left_of t x = Some cl" by (cases "left_of t x") (auto dest: is_tree_None)
    from tl cl have pcl: "parent_of t cl = Some x" and clm: "cl \<in> set_tree l"
      by (auto dest: is_tree_Some is_tree_root_mem)
    have nr: "right_of t x \<noteq> Some cl"
    proof
      assume "right_of t x = Some cl"
      with tr have "cl \<in> set_tree r" by (auto dest: is_tree_root_mem)
      with clm d show False by auto
    qed
    have "prev_node t a = (if xs' = [] then prev_up t cl else Some (Some (last xs')))"
      using Node.IH(1)[of cl "Some x" xs' ys'] tl cl d s by simp
    then show ?thesis
      using e cx pcl nr by (auto simp: prev_up_from_left)
  qed
qed

lemma next_node_inorder:
  assumes "wf_tree t T" "inorder T = xs @ a # ys"
  shows "next_node t a = Some (case ys of [] \<Rightarrow> None | b # _ \<Rightarrow> Some b)"
proof -
  from assms have "T \<noteq> Leaf" by auto
  with assms obtain c where c: "root t = Some c" "is_tree t (Some c) None T" "parent_of t c = None"
    using wf_tree_root by blast
  with assms show ?thesis
    using next_node_subtree[of t c None T xs a ys]
    by (cases ys) (auto simp: wf_tree_def next_up_root)
qed

lemma prev_node_inorder:
  assumes "wf_tree t T" "inorder T = xs @ a # ys"
  shows "prev_node t a = Some (if xs = [] then None else Some (last xs))"
proof -
  from assms have "T \<noteq> Leaf" by auto
  with assms obtain c where c: "root t = Some c" "is_tree t (Some c) None T" "parent_of t c = None"
    using wf_tree_root by blast
  with assms show ?thesis
    using prev_node_subtree[of t c None T xs a ys]
    by (auto simp: wf_tree_def prev_up_root)
qed

lemma prev_walk_inorder:
  "wf_tree t T \<Longrightarrow> inorder T = xs @ a # ys \<Longrightarrow> prev_walk t (length xs) a = Some (a # rev xs)"
proof (induction xs arbitrary: a ys rule: rev_induct)
  case Nil
  then show ?case by simp
next
  case (snoc b xs)
  from snoc.prems have "prev_node t a = Some (Some b)"
    using prev_node_inorder[of t T "xs @ [b]" a ys] by simp
  moreover have "prev_walk t (length xs) b = Some (b # rev xs)"
    using snoc.IH[of b "a # ys"] snoc.prems by simp
  ultimately show ?case by simp
qed

text \<open>
  C9. In a well-formed tree with root \<open>c\<close>, the right-most node is the last and the left-most
  node the first of the in-order sequence; \<^verbatim>\<open>next\<close> and \<^verbatim>\<open>prev\<close> are inverse to each other on
  linked nodes; \<^verbatim>\<open>prev\<close> applied \<open>n - 1\<close> times from the last node passes through the whole
  in-order sequence backwards, ending at the first; \<^verbatim>\<open>prev\<close> of the first and \<^verbatim>\<open>next\<close> of the
  last node are null.
\<close>

theorem next_prev_traversal:
  assumes w: "wf_tree t T" and r: "root t = Some c"
  shows "rightmost t c = Some (last (inorder T)) \<and> leftmost t c = Some (hd (inorder T)) \<and>
         (\<forall>a b. (a \<in> set_tree T \<and> next_node t a = Some (Some b)) =
                (b \<in> set_tree T \<and> prev_node t b = Some (Some a))) \<and>
         prev_walk t (size T - 1) (last (inorder T)) = Some (rev (inorder T)) \<and>
         prev_node t (hd (inorder T)) = Some None \<and>
         next_node t (last (inorder T)) = Some None"
proof -
  from w r have s: "is_tree t (Some c) None T" by (simp add: wf_tree_def)
  then have ne: "inorder T \<noteq> []" by (cases T) auto
  have 1: "rightmost t c = Some (last (inorder T))" using s by (rule rightmost_is_tree)
  have 2: "leftmost t c = Some (hd (inorder T))" using s by (rule leftmost_is_tree)
  have 3: "(a \<in> set_tree T \<and> next_node t a = Some (Some b)) =
           (b \<in> set_tree T \<and> prev_node t b = Some (Some a))" for a b
  proof
    assume "a \<in> set_tree T \<and> next_node t a = Some (Some b)"
    then obtain xs ys where io: "inorder T = xs @ a # ys" and n: "next_node t a = Some (Some b)"
      by (metis split_list set_inorder)
    from next_node_inorder[OF w io] n obtain ys' where ys: "ys = b # ys'"
      by (cases ys) auto
    with io have io': "inorder T = (xs @ [a]) @ b # ys'" by simp
    from prev_node_inorder[OF w io'] have "prev_node t b = Some (Some a)" by simp
    moreover have "b \<in> set_tree T" using arg_cong[OF io', of set] by simp
    ultimately show "b \<in> set_tree T \<and> prev_node t b = Some (Some a)" by simp
  next
    assume "b \<in> set_tree T \<and> prev_node t b = Some (Some a)"
    then obtain xs ys where io: "inorder T = xs @ b # ys" and p: "prev_node t b = Some (Some a)"
      by (metis split_list set_inorder)
    from prev_node_inorder[OF w io] p have "xs \<noteq> []" "last xs = a"
      by (auto split: if_splits)
    then obtain xs' where xs: "xs = xs' @ [a]" by (metis append_butlast_last_id)
    with io have io': "inorder T = xs' @ a # (b # ys)" by simp
    from next_node_inorder[OF w io'] have "next_node t a = Some (Some b)" by simp
    moreover have "a \<in> set_tree T" using arg_cong[OF io', of set] by simp
    ultimately show "a \<in> set_tree T \<and> next_node t a = Some (Some b)" by simp
  qed
  from ne have ioL: "inorder T = butlast (inorder T) @ last (inorder T) # []"
    by simp
  from ne have ioH: "inorder T = [] @ hd (inorder T) # tl (inorder T)"
    by simp
  have "prev_walk t (length (butlast (inorder T))) (last (inorder T)) =
        Some (last (inorder T) # rev (butlast (inorder T)))"
    using w ioL by (rule prev_walk_inorder)
  moreover have "last (inorder T) # rev (butlast (inorder T)) = rev (inorder T)"
    using ne by (metis append_butlast_last_id rev.simps(2) rev_rev_ident rev_swap singleton_rev_conv rev_append append_Cons append_Nil)
  ultimately have 4: "prev_walk t (size T - 1) (last (inorder T)) = Some (rev (inorder T))"
    by (simp add: length_inorder[symmetric] del: length_inorder)
  have 5: "prev_node t (hd (inorder T)) = Some None"
    using prev_node_inorder[OF w ioH] by simp
  have 6: "next_node t (last (inorder T)) = Some None"
    using next_node_inorder[OF w ioL] by simp
  from 1 2 3 4 5 6 show ?thesis by blast
qed

theorem next_prev_traversal_witness:
  "\<exists>t. insert_all [2, 1, 3] (avl_tree_init (\<lambda>a. a)) = Some t \<and>
      wf_tree t \<langle>\<langle>\<langle>\<rangle>, 1, \<langle>\<rangle>\<rangle>, 2, \<langle>\<langle>\<rangle>, 3, \<langle>\<rangle>\<rangle>\<rangle> \<and> root t = Some 2 \<and>
      rightmost t 2 = Some 3 \<and> leftmost t 2 = Some 1 \<and>
      prev_walk t (size \<langle>\<langle>\<langle>\<rangle>, 1::addr, \<langle>\<rangle>\<rangle>, 2, \<langle>\<langle>\<rangle>, 3, \<langle>\<rangle>\<rangle>\<rangle> - 1) 3 = Some [3, 2, 1] \<and>
      prev_node t 1 = Some None \<and> next_node t 3 = Some None"
proof -
  let ?T = "\<langle>\<langle>\<langle>\<rangle>, 1, \<langle>\<rangle>\<rangle>, 2, \<langle>\<langle>\<rangle>, 3, \<langle>\<rangle>\<rangle>\<rangle> :: addr tree"
  have "case insert_all [2, 1, 3] (avl_tree_init (\<lambda>a. a)) of None \<Rightarrow> False
        | Some t \<Rightarrow> wf_tree t ?T \<and> root t = Some 2"
    by code_simp
  then obtain t where t: "insert_all [2, 1, 3] (avl_tree_init (\<lambda>a. a)) = Some t" "wf_tree t ?T"
      "root t = Some 2"
    by (auto split: option.splits)
  from next_prev_traversal[OF t(2,3)] t show ?thesis
    by (simp del: insert_all.simps prev_walk.simps)
qed

text \<open>
  C10. \<^verbatim>\<open>operator++\<close> on the end iterator (null node pointer) returns it unchanged.
  \<^verbatim>\<open>operator--\<close> on the end iterator of a tree with a root moves to the right-most node, the
  last of the in-order sequence; on a tree without a root it returns the end iterator.
\<close>

theorem end_iterator_steps:
  "iterator_inc t (end_avl self) = Some (end_avl self) \<and>
   (is_tree t (root t) None T \<longrightarrow> T \<noteq> Leaf \<longrightarrow>
      iterator_dec t (end_avl self) = Some \<lparr>mTree = Some self, mPtr = Some (last (inorder T))\<rparr>) \<and>
   (root t = None \<longrightarrow> iterator_dec t (end_avl self) = Some (end_avl self))"
proof (intro conjI impI)
  show "iterator_inc t (end_avl self) = Some (end_avl self)"
    by (simp add: iterator_inc_def end_avl_def)
next
  assume T: "is_tree t (root t) None T" "T \<noteq> Leaf"
  then obtain l a r where N: "T = Node l a r" by (cases T) auto
  with T have "root t = Some a" by simp
  moreover from T this have "rightmost t a = Some (last (inorder T))"
    by (metis rightmost_is_tree)
  ultimately show "iterator_dec t (end_avl self) = Some \<lparr>mTree = Some self, mPtr = Some (last (inorder T))\<rparr>"
    by (simp add: iterator_dec_def end_avl_def)
next
  assume "root t = None"
  then show "iterator_dec t (end_avl self) = Some (end_avl self)"
    by (simp add: iterator_dec_def end_avl_def)
qed

theorem end_iterator_steps_witness:
  "\<exists>t. insert_all [2, 1, 3] (avl_tree_init (\<lambda>a. a)) = Some t \<and>
       is_tree t (root t) None \<langle>\<langle>\<langle>\<rangle>, 1, \<langle>\<rangle>\<rangle>, 2, \<langle>\<langle>\<rangle>, 3, \<langle>\<rangle>\<rangle>\<rangle> \<and>
       iterator_inc t (end_avl 0) = Some (end_avl 0) \<and>
       iterator_dec t (end_avl 0) = Some \<lparr>mTree = Some 0, mPtr = Some 3\<rparr> \<and>
       root (avl_tree_init (\<lambda>a. a :: nat)) = None \<and>
       iterator_dec (avl_tree_init (\<lambda>a. a :: nat)) (end_avl 0) = Some (end_avl 0)"
proof -
  have "case insert_all [2, 1, 3] (avl_tree_init (\<lambda>a. a)) of None \<Rightarrow> False
        | Some t \<Rightarrow> is_tree t (root t) None \<langle>\<langle>\<langle>\<rangle>, 1, \<langle>\<rangle>\<rangle>, 2, \<langle>\<langle>\<rangle>, 3, \<langle>\<rangle>\<rangle>\<rangle>"
    by code_simp
  then obtain t where t: "insert_all [2, 1, 3] (avl_tree_init (\<lambda>a. a)) = Some t"
      "is_tree t (root t) None \<langle>\<langle>\<langle>\<rangle>, 1, \<langle>\<rangle>\<rangle>, 2, \<langle>\<langle>\<rangle>, 3, \<langle>\<rangle>\<rangle>\<rangle>"
    by (auto split: option.splits)
  have e: "root (avl_tree_init (\<lambda>a. a :: nat)) = None" by code_simp
  show ?thesis
    using t e end_iterator_steps[of t 0 "\<langle>\<langle>\<langle>\<rangle>, 1, \<langle>\<rangle>\<rangle>, 2, \<langle>\<langle>\<rangle>, 3, \<langle>\<rangle>\<rangle>\<rangle>"]
      end_iterator_steps[of "avl_tree_init (\<lambda>a. a :: nat)" 0 Leaf]
    by simp
qed

section \<open>Clearing the tree\<close>

lemma is_tree_shape: "is_tree t p par T \<Longrightarrow> is_shape t p T"
  by (induction T arbitrary: p par) auto

lemma is_shape_cong:
  "(\<And>b. b \<in> set_tree T \<Longrightarrow> left_of t' b = left_of t b \<and> right_of t' b = right_of t b)
   \<Longrightarrow> is_shape t' p T = is_shape t p T"
  by (induction T arbitrary: p) auto

lemma keeps_other_linksD:
  "keeps_other_links handler \<Longrightarrow> b \<noteq> a \<Longrightarrow>
   left_of (fst (handler a s)) b = left_of (fst s) b \<and>
   right_of (fst (handler a s)) b = right_of (fst s) b"
  unfolding keeps_other_links_def by blast

lemma visit_all_keeps:
  "keeps_other_links handler \<Longrightarrow> b \<notin> set as \<Longrightarrow>
   left_of (fst (visit_all handler as s)) b = left_of (fst s) b \<and>
   right_of (fst (visit_all handler as s)) b = right_of (fst s) b"
  unfolding visit_all_def
  by (induction as arbitrary: s) (auto simp: keeps_other_linksD)

lemma visit_all_append:
  "visit_all handler (as @ bs) s = visit_all handler bs (visit_all handler as s)"
  by (simp add: visit_all_def)

lemma visit_all_Cons:
  "visit_all handler (a # as) s = visit_all handler as (handler a s)"
  by (simp add: visit_all_def)

lemma set_preorder: "set (preorder T) = set_tree T"
  by (induction T) auto

lemma distinct_preorder: "distinct (inorder T) \<Longrightarrow> distinct (preorder T)"
  by (induction T) (auto simp: set_preorder)

lemma clear_impl_preorder:
  assumes "keeps_other_links handler"
  shows "is_shape (fst s) (Some a) T \<Longrightarrow> distinct (inorder T) \<Longrightarrow>
         clear_impl handler a s = Some (visit_all handler (preorder T) s)"
proof (induction T arbitrary: a s)
  case Leaf
  then show ?case by simp
next
  case (Node l x r)
  let ?s1 = "handler x s"
  let ?s2 = "visit_all handler (preorder l) ?s1"
  from Node.prems have ax: "a = x" and sl: "is_shape (fst s) (left_of (fst s) x) l"
    and sr: "is_shape (fst s) (right_of (fst s) x) r"
    and d: "distinct (inorder l)" "distinct (inorder r)" "x \<notin> set_tree l" "x \<notin> set_tree r"
      "set_tree l \<inter> set_tree r = {}"
    by auto
  have sl1: "is_shape (fst ?s1) (left_of (fst s) x) l"
  proof (subst is_shape_cong[of l _ "fst s"])
    fix b assume "b \<in> set_tree l"
    then have "b \<noteq> x" using d by auto
    then show "left_of (fst ?s1) b = left_of (fst s) b \<and> right_of (fst ?s1) b = right_of (fst s) b"
      by (rule keeps_other_linksD[OF assms])
  qed (rule sl)
  have sr2: "is_shape (fst ?s2) (right_of (fst s) x) r"
  proof (subst is_shape_cong[of r _ "fst s"])
    fix b assume b: "b \<in> set_tree r"
    then have "b \<notin> set (preorder l)" "b \<noteq> x" using d by (auto simp: set_preorder)
    then show "left_of (fst ?s2) b = left_of (fst s) b \<and> right_of (fst ?s2) b = right_of (fst s) b"
      using visit_all_keeps[OF assms, of b "preorder l" ?s1] keeps_other_linksD[OF assms, of b x s]
      by simp
  qed (rule sr)
  have L: "(case left_of (fst s) x of Some y \<Rightarrow> clear_impl handler y ?s1 | None \<Rightarrow> Some ?s1) = Some ?s2"
  proof (cases l)
    case Leaf
    with sl show ?thesis by (simp add: visit_all_def)
  next
    case (Node ll y lr)
    with sl1 have "left_of (fst s) x = Some y" by simp
    with Node.IH(1)[of ?s1 y] sl1 d show ?thesis by simp
  qed
  have R: "(case right_of (fst s) x of Some y \<Rightarrow> clear_impl handler y ?s2 | None \<Rightarrow> Some ?s2)
           = Some (visit_all handler (preorder r) ?s2)"
  proof (cases r)
    case Leaf
    with sr show ?thesis by (simp add: visit_all_def)
  next
    case (Node rl y rr)
    with sr2 have "right_of (fst s) x = Some y" by simp
    with Node.IH(2)[of ?s2 y] sr2 d show ?thesis by simp
  qed
  show ?case
    unfolding ax
    by (subst clear_impl.simps) (simp add: Let_def L R visit_all_Cons visit_all_append)
qed

lemma find_avl_no_root: "root t = None \<Longrightarrow> find_avl t v = Some None"
  by (simp add: find_avl_def find_loop.simps)

text \<open>
  C8. For a handler that leaves the child links of every node other than the visited one
  alone (it may destroy the visited node itself), \<^verbatim>\<open>clear\<close> on a tree with a root runs the
  handler on the nodes in pre-order, each linked node once: the node's children are read
  before the handler runs on it. Afterwards the root is null, the size is 0 and \<^verbatim>\<open>find\<close>
  returns null for every value.
\<close>

theorem clear_visits_preorder:
  assumes "wf_tree t T" and "T \<noteq> Leaf" and "keeps_other_links handler"
  shows "\<exists>t1 w1. visit_all handler (preorder T) (t, w) = (t1, w1) \<and>
           clear_avl handler (t, w) = Some (t1\<lparr>mRoot := None, mSize := 0\<rparr>, w1) \<and>
           distinct (preorder T) \<and> set (preorder T) = set_tree T \<and>
           root (t1\<lparr>mRoot := None, mSize := 0\<rparr>) = None \<and>
           size_avl (t1\<lparr>mRoot := None, mSize := 0\<rparr>) = 0 \<and>
           (\<forall>v. find_avl (t1\<lparr>mRoot := None, mSize := 0\<rparr>) v = Some None)"
proof -
  obtain t1 w1 where v: "visit_all handler (preorder T) (t, w) = (t1, w1)"
    by (cases "visit_all handler (preorder T) (t, w)")
  from assms obtain l a r where T: "T = Node l a r" by (cases T) auto
  with assms have r: "root t = Some a" and s: "is_shape t (Some a) T" and d: "distinct (inorder T)"
    using is_tree_shape[of t "root t" None T] by (auto simp: wf_tree_def)
  have "clear_impl handler a (t, w) = Some (t1, w1)"
    using clear_impl_preorder[OF assms(3), of "(t, w)" a T] s d v by simp
  then have "clear_avl handler (t, w) = Some (t1\<lparr>mRoot := None, mSize := 0\<rparr>, w1)"
    using r by (simp add: clear_avl_def)
  moreover have "root (t1\<lparr>mRoot := None, mSize := 0\<rparr>) = None" by (simp add: root_def)
  ultimately show ?thesis
    using v d by (simp add: set_preorder distinct_preorder find_avl_no_root size_avl_def)
qed

lemma memset_handler_keeps: "keeps_other_links memset_handler"
  by (simp add: keeps_other_links_def memset_handler_def left_of_def right_of_def)

theorem clear_visits_preorder_witness:
  "\<exists>t t'. insert_all [2, 1, 3] (avl_tree_init (\<lambda>a. a)) = Some t \<and>
      wf_tree t \<langle>\<langle>\<langle>\<rangle>, 1, \<langle>\<rangle>\<rangle>, 2, \<langle>\<langle>\<rangle>, 3, \<langle>\<rangle>\<rangle>\<rangle> \<and>
      clear_avl memset_handler (t, []) = Some (t', [2, 1, 3]) \<and>
      root t' = None \<and> size_avl t' = 0 \<and> find_avl t' 1 = Some None"
proof -
  let ?T = "\<langle>\<langle>\<langle>\<rangle>, 1, \<langle>\<rangle>\<rangle>, 2, \<langle>\<langle>\<rangle>, 3, \<langle>\<rangle>\<rangle>\<rangle> :: addr tree"
  have "case insert_all [2, 1, 3] (avl_tree_init (\<lambda>a. a)) of None \<Rightarrow> False
        | Some t \<Rightarrow> wf_tree t ?T"
    by code_simp
  then obtain t where t: "insert_all [2, 1, 3] (avl_tree_init (\<lambda>a. a)) = Some t" "wf_tree t ?T"
    by (auto split: option.splits)
  have "snd (visit_all memset_handler (preorder ?T) (t, [])) = [2, 1, 3]"
    by (simp add: visit_all_def memset_handler_def)
  with clear_visits_preorder[OF t(2) _ memset_handler_keeps, of "[]"] t
  show ?thesis by auto
qed

section \<open>Reading a field after a write\<close>

lemma parent_of_set [simp]:
  "parent_of (set_parent a p t) b = (if b = a then p else parent_of t b)"
  "parent_of (set_left a p t) b = parent_of t b"
  "parent_of (set_right a p t) b = parent_of t b"
  "parent_of (set_height a h t) b = parent_of t b"
  "parent_of (t\<lparr>mRoot := p\<rparr>) b = parent_of t b"
  "parent_of (t\<lparr>mSize := n\<rparr>) b = parent_of t b"
  by (simp_all add: parent_of_def set_parent_def set_left_def set_right_def set_height_def)

lemma left_of_set [simp]:
  "left_of (set_left a p t) b = (if b = a then p else left_of t b)"
  "left_of (set_parent a p t) b = left_of t b"
  "left_of (set_right a p t) b = left_of t b"
  "left_of (set_height a h t) b = left_of t b"
  "left_of (t\<lparr>mRoot := p\<rparr>) b = left_of t b"
  "left_of (t\<lparr>mSize := n\<rparr>) b = left_of t b"
  by (simp_all add: left_of_def set_parent_def set_left_def set_right_def set_height_def)

lemma right_of_set [simp]:
  "right_of (set_right a p t) b = (if b = a then p else right_of t b)"
  "right_of (set_parent a p t) b = right_of t b"
  "right_of (set_left a p t) b = right_of t b"
  "right_of (set_height a h t) b = right_of t b"
  "right_of (t\<lparr>mRoot := p\<rparr>) b = right_of t b"
  "right_of (t\<lparr>mSize := n\<rparr>) b = right_of t b"
  by (simp_all add: right_of_def set_parent_def set_left_def set_right_def set_height_def)

lemma height_of_set [simp]:
  "height_of (set_height a h t) b = (if b = a then h else height_of t b)"
  "height_of (set_parent a p t) b = height_of t b"
  "height_of (set_left a p t) b = height_of t b"
  "height_of (set_right a p t) b = height_of t b"
  "height_of (t\<lparr>mRoot := p\<rparr>) b = height_of t b"
  "height_of (t\<lparr>mSize := n\<rparr>) b = height_of t b"
  by (simp_all add: height_of_def set_parent_def set_left_def set_right_def set_height_def)

lemma val_set [simp]:
  "val (nodes (set_height a h t) b) = val (nodes t b)"
  "val (nodes (set_parent a p t) b) = val (nodes t b)"
  "val (nodes (set_left a p t) b) = val (nodes t b)"
  "val (nodes (set_right a p t) b) = val (nodes t b)"
  by (simp_all add: set_parent_def set_left_def set_right_def set_height_def)

lemma root_set [simp]:
  "root (set_height a h t) = root t"
  "root (set_parent a p t) = root t"
  "root (set_left a p t) = root t"
  "root (set_right a p t) = root t"
  "root (t\<lparr>mRoot := p\<rparr>) = p"
  "root (t\<lparr>mSize := n\<rparr>) = root t"
  by (simp_all add: root_def set_parent_def set_left_def set_right_def set_height_def)

lemma mSize_set [simp]:
  "mSize (set_height a h t) = mSize t"
  "mSize (set_parent a p t) = mSize t"
  "mSize (set_left a p t) = mSize t"
  "mSize (set_right a p t) = mSize t"
  by (simp_all add: set_parent_def set_left_def set_right_def set_height_def)

lemma nodes_set_other:
  "b \<noteq> a \<Longrightarrow> nodes (set_height a h t) b = nodes t b"
  "b \<noteq> a \<Longrightarrow> nodes (set_parent a p t) b = nodes t b"
  "b \<noteq> a \<Longrightarrow> nodes (set_left a p t) b = nodes t b"
  "b \<noteq> a \<Longrightarrow> nodes (set_right a p t) b = nodes t b"
  by (simp_all add: set_parent_def set_left_def set_right_def set_height_def)

lemma height_or_0_set [simp]:
  "height_or_0 (set_parent a p t) q = height_or_0 t q"
  "height_or_0 (set_left a p t) q = height_or_0 t q"
  "height_or_0 (set_right a p t) q = height_or_0 t q"
  "height_or_0 (t\<lparr>mRoot := p\<rparr>) q = height_or_0 t q"
  by (simp_all add: height_or_0_def split: option.splits)

section \<open>What the shape predicates depend on\<close>

lemma is_tree_cong:
  "(\<And>b. b \<in> set_tree T \<Longrightarrow> parent_of t' b = parent_of t b \<and> left_of t' b = left_of t b \<and>
        right_of t' b = right_of t b)
   \<Longrightarrow> is_tree t' p par T = is_tree t p par T"
  by (induction T arbitrary: p par) auto

lemma is_tree_reparent:
  assumes "is_tree t p par T" and "distinct (inorder T)"
    and "\<And>b. b \<in> set_tree T \<Longrightarrow> left_of t' b = left_of t b \<and> right_of t' b = right_of t b"
    and "\<And>b. b \<in> set_tree T \<Longrightarrow> Some b \<noteq> p \<Longrightarrow> parent_of t' b = parent_of t b"
    and "\<And>a. p = Some a \<Longrightarrow> parent_of t' a = par'"
  shows "is_tree t' p par' T"
proof (cases T)
  case Leaf
  with assms show ?thesis by simp
next
  case (Node l a r)
  with assms(1,2) have p: "p = Some a" and d: "a \<notin> set_tree l" "a \<notin> set_tree r"
    and l: "is_tree t (left_of t a) (Some a) l" and r: "is_tree t (right_of t a) (Some a) r"
    by auto
  have "is_tree t' (left_of t a) (Some a) l = is_tree t (left_of t a) (Some a) l"
    using assms(3,4) d p Node by (intro is_tree_cong) auto
  moreover have "is_tree t' (right_of t a) (Some a) r = is_tree t (right_of t a) (Some a) r"
    using assms(3,4) d p Node by (intro is_tree_cong) auto
  ultimately show ?thesis
    using Node p l r assms(3)[of a] assms(5)[of a] by simp
qed

lemma heights_ok_cong:
  "(\<And>b. b \<in> set_tree T \<Longrightarrow> height_of t' b = height_of t b) \<Longrightarrow> heights_ok t' T = heights_ok t T"
  by (induction T) auto

lemma is_ctx_cong:
  "(\<And>b. b \<in> ctx_addrs C \<Longrightarrow> parent_of t' b = parent_of t b \<and> left_of t' b = left_of t b \<and>
        right_of t' b = right_of t b)
   \<Longrightarrow> root t' = root t \<Longrightarrow> is_ctx t' C p par = is_ctx t C p par"
proof (induction C arbitrary: p par)
  case Nil
  then show ?case by simp
next
  case (Cons f C)
  show ?case
  proof (cases f)
    case (LeftOf a sib)
    have "is_tree t' (right_of t a) (Some a) sib = is_tree t (right_of t a) (Some a) sib"
      using Cons.prems LeftOf by (intro is_tree_cong) auto
    moreover have "is_ctx t' C (Some a) (parent_of t a) = is_ctx t C (Some a) (parent_of t a)"
      using Cons.prems LeftOf by (intro Cons.IH) auto
    ultimately show ?thesis using Cons.prems(1)[of a] LeftOf by simp
  next
    case (RightOf sib a)
    have "is_tree t' (left_of t a) (Some a) sib = is_tree t (left_of t a) (Some a) sib"
      using Cons.prems RightOf by (intro is_tree_cong) auto
    moreover have "is_ctx t' C (Some a) (parent_of t a) = is_ctx t C (Some a) (parent_of t a)"
      using Cons.prems RightOf by (intro Cons.IH) auto
    ultimately show ?thesis using Cons.prems(1)[of a] RightOf by simp
  qed
qed

lemma ctx_heights_cong:
  "(\<And>b. b \<in> ctx_addrs C \<Longrightarrow> height_of t' b = height_of t b)
   \<Longrightarrow> ctx_heights t' C h = ctx_heights t C h"
proof (induction C arbitrary: h)
  case Nil
  then show ?case by simp
next
  case (Cons f C)
  show ?case
  proof (cases f)
    case (LeftOf a sib)
    have "heights_ok t' sib = heights_ok t sib"
      using Cons.prems LeftOf by (intro heights_ok_cong) auto
    moreover have "ctx_heights t' C (height_of t a) = ctx_heights t C (height_of t a)"
      using Cons.prems LeftOf by (intro Cons.IH) auto
    ultimately show ?thesis using Cons.prems[of a] LeftOf by simp
  next
    case (RightOf sib a)
    have "heights_ok t' sib = heights_ok t sib"
      using Cons.prems RightOf by (intro heights_ok_cong) auto
    moreover have "ctx_heights t' C (height_of t a) = ctx_heights t C (height_of t a)"
      using Cons.prems RightOf by (intro Cons.IH) auto
    ultimately show ?thesis using Cons.prems[of a] RightOf by simp
  qed
qed

section \<open>Trees and their contexts\<close>

lemma inorder_plug: "inorder (plug C S) = ctx_before C @ inorder S @ ctx_after C"
  by (induction C S rule: plug.induct) auto

lemma set_ctx_addrs: "ctx_addrs C = set (ctx_before C) \<union> set (ctx_after C)"
  by (induction C rule: ctx_addrs.induct) auto

lemma set_tree_plug: "set_tree (plug C S) = set_tree S \<union> ctx_addrs C"
  by (induction C S rule: plug.induct) auto

lemma size_plug_mono: "size S \<le> size (plug C S)"
proof (induction C S rule: plug.induct)
  case (2 a sib C S)
  then show ?case by (simp add: le_trans[OF _ "2.IH"])
next
  case (3 sib a C S)
  then show ?case by (simp add: le_trans[OF _ "3.IH"])
qed simp

lemma is_ctx_plug:
  "is_ctx t C p par \<Longrightarrow> is_tree t p par S \<Longrightarrow> is_tree t (root t) None (plug C S)"
  by (induction C S arbitrary: p par rule: plug.induct) auto

lemma is_ctx_parent_mem: "is_ctx t C p (Some a) \<Longrightarrow> a \<in> ctx_addrs C"
  by (cases C rule: ctx_addrs.cases) auto

lemma heights_ok_plug:
  "heights_ok t (plug C S) = (heights_ok t S \<and> ctx_heights t C (height S))"
  by (induction C S rule: plug.induct) auto

lemma height_or_0_is_tree:
  "is_tree t p par T \<Longrightarrow> heights_ok t T \<Longrightarrow> height_or_0 t p = height T"
  by (cases T) (auto simp: height_or_0_def)

section \<open>Rotations\<close>

lemma replace_as_child_acc [simp]:
  "parent_of (replace_as_child n q par t) b = parent_of t b"
  "height_of (replace_as_child n q par t) b = height_of t b"
  "val (nodes (replace_as_child n q par t) b) = val (nodes t b)"
  "mSize (replace_as_child n q par t) = mSize t"
  "height_or_0 (replace_as_child n q par t) p = height_or_0 t p"
  "left_of (replace_as_child n q par t) b =
     (if par = Some b \<and> left_of t b = Some n then q else left_of t b)"
  "right_of (replace_as_child n q par t) b =
     (if par = Some b \<and> left_of t b \<noteq> Some n then q else right_of t b)"
  "root (replace_as_child n q par t) = (if par = None then q else root t)"
  by (auto simp: replace_as_child_def height_or_0_def split: option.splits)

lemma replace_as_child_nodes:
  "par \<noteq> Some b \<Longrightarrow> nodes (replace_as_child n q par t) b = nodes t b"
  by (auto simp: replace_as_child_def set_left_def set_right_def split: option.splits)

lemma set_parent_opt_acc [simp]:
  "parent_of (case p of None \<Rightarrow> t | Some x \<Rightarrow> set_parent x v t) b =
     (if p = Some b then v else parent_of t b)"
  "left_of (case p of None \<Rightarrow> t | Some x \<Rightarrow> set_parent x v t) b = left_of t b"
  "right_of (case p of None \<Rightarrow> t | Some x \<Rightarrow> set_parent x v t) b = right_of t b"
  "height_of (case p of None \<Rightarrow> t | Some x \<Rightarrow> set_parent x v t) b = height_of t b"
  "val (nodes (case p of None \<Rightarrow> t | Some x \<Rightarrow> set_parent x v t) b) = val (nodes t b)"
  "mSize (case p of None \<Rightarrow> t | Some x \<Rightarrow> set_parent x v t) = mSize t"
  "root (case p of None \<Rightarrow> t | Some x \<Rightarrow> set_parent x v t) = root t"
  "height_or_0 (case p of None \<Rightarrow> t | Some x \<Rightarrow> set_parent x v t) q = height_or_0 t q"
  by (auto split: option.splits)

lemma set_parent_opt_nodes:
  "p \<noteq> Some b \<Longrightarrow> nodes (case p of None \<Rightarrow> t | Some x \<Rightarrow> set_parent x v t) b = nodes t b"
  by (auto simp: set_parent_def split: option.splits)

lemma ctx_replace:
  assumes "is_ctx t C (Some n) par" and "n \<notin> ctx_addrs C"
    and "distinct (ctx_before C @ ctx_after C)"
  shows "is_ctx (replace_as_child n q par t) C q par"
proof (cases C rule: ctx_addrs.cases)
  case 1
  with assms show ?thesis by simp
next
  case (2 a sib C')
  let ?t = "replace_as_child n q par t"
  from assms 2 have a: "par = Some a" "left_of t a = Some n" "a \<notin> set_tree sib" "a \<notin> ctx_addrs C'"
    and s: "is_tree t (right_of t a) (Some a) sib" and c: "is_ctx t C' (Some a) (parent_of t a)"
    by (auto simp: set_ctx_addrs)
  have "is_tree ?t (right_of t a) (Some a) sib = is_tree t (right_of t a) (Some a) sib"
    using a by (intro is_tree_cong) auto
  moreover have "is_ctx ?t C' (Some a) (parent_of t a) = is_ctx t C' (Some a) (parent_of t a)"
    using a by (intro is_ctx_cong) auto
  ultimately show ?thesis using 2 a s c by simp
next
  case (3 sib a C')
  let ?t = "replace_as_child n q par t"
  from assms 3 have a: "par = Some a" "right_of t a = Some n" "a \<notin> set_tree sib" "a \<notin> ctx_addrs C'"
    "n \<notin> set_tree sib"
    and s: "is_tree t (left_of t a) (Some a) sib" and c: "is_ctx t C' (Some a) (parent_of t a)"
    by (auto simp: set_ctx_addrs)
  have nl: "left_of t a \<noteq> Some n"
    using s a(5) by (auto dest: is_tree_root_mem)
  have "is_tree ?t (left_of t a) (Some a) sib = is_tree t (left_of t a) (Some a) sib"
    using a by (intro is_tree_cong) auto
  moreover have "is_ctx ?t C' (Some a) (parent_of t a) = is_ctx t C' (Some a) (parent_of t a)"
    using a by (intro is_ctx_cong) auto
  ultimately show ?thesis using 3 a s c nl by simp
qed

lemma rotate_left_correct:
  assumes c: "is_ctx t C (Some n) par"
    and s: "is_tree t (Some n) par (Node l n (Node rl y rr))"
    and d: "distinct (inorder (plug C (Node l n (Node rl y rr))))"
  shows "\<exists>t'. rotate_left n t = Some (y, t') \<and> is_ctx t' C (Some y) par \<and>
           is_tree t' (Some y) par (Node (Node l n rl) y rr) \<and>
           (\<forall>b. height_of t' b = height_of t b) \<and>
           same_except (set_tree (plug C (Node l n (Node rl y rr)))) t t'"
proof -
  let ?t1 = "set_right n (left_of t y) t"
  let ?t2 = "case right_of ?t1 n of Some x \<Rightarrow> set_parent x (Some n) ?t1 | None \<Rightarrow> ?t1"
  let ?t4 = "set_parent y par (set_left y (Some n) ?t2)"
  let ?t5 = "replace_as_child n (Some y) par ?t4"
  let ?t' = "set_parent n (Some y) ?t5"
  from d have dS: "distinct (inorder l @ n # inorder rl @ y # inorder rr)"
    and dC: "distinct (ctx_before C @ ctx_after C)"
    and dCS: "ctx_addrs C \<inter> (set_tree l \<union> set_tree rl \<union> set_tree rr \<union> {n, y}) = {}"
    by (auto simp: inorder_plug set_ctx_addrs)
  from s have f: "parent_of t n = par" "right_of t n = Some y" "parent_of t y = Some n"
    and tl: "is_tree t (left_of t n) (Some n) l" and trl: "is_tree t (left_of t y) (Some y) rl"
    and trr: "is_tree t (right_of t y) (Some y) rr"
    by auto
  have rl_root: "\<And>x. left_of t y = Some x \<Longrightarrow> x \<in> set_tree rl"
    using trl by (auto dest: is_tree_root_mem)
  have parC: "\<And>p. par = Some p \<Longrightarrow> p \<in> ctx_addrs C"
    using c by (auto dest: is_ctx_parent_mem)
  have r: "rotate_left n t = Some (y, ?t')"
    using f by (simp add: rotate_left_def Let_def)
  have c4: "is_ctx ?t4 C (Some n) par"
    using c dCS rl_root by (subst is_ctx_cong[of C _ t]) auto
  have c5: "is_ctx ?t5 C (Some y) par"
    using c4 dC dCS by (intro ctx_replace) auto
  have c': "is_ctx ?t' C (Some y) par"
    using c5 dCS by (subst is_ctx_cong[of C _ ?t5]) auto
  have l': "is_tree ?t' (left_of t n) (Some n) l"
    using tl dS dCS rl_root parC by (subst is_tree_cong[of l _ t]) auto
  have rr': "is_tree ?t' (right_of t y) (Some y) rr"
    using trr dS dCS rl_root parC by (subst is_tree_cong[of rr _ t]) auto
  have rl': "is_tree ?t' (left_of t y) (Some n) rl"
    using trl dS dCS parC rl_root by (intro is_tree_reparent[OF trl]) auto
  have acc: "parent_of ?t' y = par" "left_of ?t' y = Some n" "right_of ?t' y = right_of t y"
    "parent_of ?t' n = Some y" "left_of ?t' n = left_of t n" "right_of ?t' n = left_of t y"
    using dS dCS parC rl_root by auto
  have t': "is_tree ?t' (Some y) par (Node (Node l n rl) y rr)"
    using l' rr' rl' acc by simp
  have h: "\<forall>b. height_of ?t' b = height_of t b" by simp
  have "nodes ?t' b = nodes t b" if "b \<notin> set_tree (plug C (Node l n (Node rl y rr)))" for b
  proof -
    from that have "par \<noteq> Some b" "left_of t y \<noteq> Some b" "b \<noteq> n" "b \<noteq> y"
      using parC rl_root by (auto simp: set_tree_plug)
    then show ?thesis
      by (simp add: nodes_set_other replace_as_child_nodes set_parent_opt_nodes)
  qed
  then have se: "same_except (set_tree (plug C (Node l n (Node rl y rr)))) t ?t'"
    unfolding same_except_def by simp
  from r c' t' h se show ?thesis by blast
qed

lemma int32_small: "h < 2 ^ 31 \<Longrightarrow> int32 h = int h"
  unfolding int32_def
  by (simp add: signed_of_nat signed_take_bit_int_eq_self_iff)

lemma rotate_right_correct:
  assumes c: "is_ctx t C (Some n) par"
    and s: "is_tree t (Some n) par (Node (Node ll y lr) n r)"
    and d: "distinct (inorder (plug C (Node (Node ll y lr) n r)))"
  shows "\<exists>t'. rotate_right n t = Some (y, t') \<and> is_ctx t' C (Some y) par \<and>
           is_tree t' (Some y) par (Node ll y (Node lr n r)) \<and>
           (\<forall>b. height_of t' b = height_of t b) \<and>
           same_except (set_tree (plug C (Node (Node ll y lr) n r))) t t'"
proof -
  let ?t1 = "set_left n (right_of t y) t"
  let ?t2 = "case right_of ?t1 y of Some x \<Rightarrow> set_parent x (Some n) ?t1 | None \<Rightarrow> ?t1"
  let ?t4 = "set_parent y par (set_right y (Some n) ?t2)"
  let ?t5 = "replace_as_child n (Some y) par ?t4"
  let ?t' = "set_parent n (Some y) ?t5"
  from d have dS: "distinct (inorder ll @ y # inorder lr @ n # inorder r)"
    and dC: "distinct (ctx_before C @ ctx_after C)"
    and dCS: "ctx_addrs C \<inter> (set_tree ll \<union> set_tree lr \<union> set_tree r \<union> {n, y}) = {}"
    by (auto simp: inorder_plug set_ctx_addrs)
  from s have f: "parent_of t n = par" "left_of t n = Some y" "parent_of t y = Some n"
    and tr: "is_tree t (right_of t n) (Some n) r" and tlr: "is_tree t (right_of t y) (Some y) lr"
    and tll: "is_tree t (left_of t y) (Some y) ll"
    by auto
  have lr_root: "\<And>x. right_of t y = Some x \<Longrightarrow> x \<in> set_tree lr"
    using tlr by (auto dest: is_tree_root_mem)
  have parC: "\<And>p. par = Some p \<Longrightarrow> p \<in> ctx_addrs C"
    using c by (auto dest: is_ctx_parent_mem)
  have ny: "n \<noteq> y" using dS by auto
  have r: "rotate_right n t = Some (y, ?t')"
    using f ny by (simp add: rotate_right_def Let_def)
  have c4: "is_ctx ?t4 C (Some n) par"
    using c dCS lr_root ny by (subst is_ctx_cong[of C _ t]) auto
  have c5: "is_ctx ?t5 C (Some y) par"
    using c4 dC dCS by (intro ctx_replace) auto
  have c': "is_ctx ?t' C (Some y) par"
    using c5 dCS by (subst is_ctx_cong[of C _ ?t5]) auto
  have r': "is_tree ?t' (right_of t n) (Some n) r"
    using tr dS dCS lr_root parC by (subst is_tree_cong[of r _ t]) auto
  have ll': "is_tree ?t' (left_of t y) (Some y) ll"
    using tll dS dCS lr_root parC by (subst is_tree_cong[of ll _ t]) auto
  have lr': "is_tree ?t' (right_of t y) (Some n) lr"
    using tlr dS dCS parC lr_root by (intro is_tree_reparent[OF tlr]) auto
  have acc: "parent_of ?t' y = par" "right_of ?t' y = Some n" "left_of ?t' y = left_of t y"
    "parent_of ?t' n = Some y" "right_of ?t' n = right_of t n" "left_of ?t' n = right_of t y"
    using dS dCS parC lr_root by auto
  have t': "is_tree ?t' (Some y) par (Node ll y (Node lr n r))"
    using r' ll' lr' acc by simp
  have h: "\<forall>b. height_of ?t' b = height_of t b" using ny by simp
  have "nodes ?t' b = nodes t b" if "b \<notin> set_tree (plug C (Node (Node ll y lr) n r))" for b
  proof -
    from that have "par \<noteq> Some b" "right_of t y \<noteq> Some b" "b \<noteq> n" "b \<noteq> y"
      using parC lr_root by (auto simp: set_tree_plug)
    then show ?thesis
      using ny by (simp add: nodes_set_other replace_as_child_nodes set_parent_opt_nodes)
  qed
  then have se: "same_except (set_tree (plug C (Node (Node ll y lr) n r))) t ?t'"
    unfolding same_except_def using ny by simp
  from r c' t' h se show ?thesis by blast
qed

section \<open>Recomputing heights after a rotation\<close>

lemma update_height_acc [simp]:
  "parent_of (update_height a t) b = parent_of t b"
  "left_of (update_height a t) b = left_of t b"
  "right_of (update_height a t) b = right_of t b"
  "val (nodes (update_height a t) b) = val (nodes t b)"
  "mSize (update_height a t) = mSize t"
  "root (update_height a t) = root t"
  "height_of (update_height a t) b =
     (if b = a then max (height_or_0 t (left_of t a)) (height_or_0 t (right_of t a)) + 1
      else height_of t b)"
  by (simp_all add: update_height_def)

lemma nodes_set_height:
  "nodes (set_height a h t) b = (if b = a then (nodes t a)\<lparr>mHeight := h\<rparr> else nodes t b)"
  by (simp add: set_height_def)

lemma nodes_update_height:
  "nodes (update_height a t) b =
     (if b = a then (nodes t a)\<lparr>mHeight := max (height_or_0 t (left_of t a)) (height_or_0 t (right_of t a)) + 1\<rparr>
      else nodes t b)"
  by (simp add: update_height_def nodes_set_height)

lemma is_tree_heights [simp]:
  "is_tree (update_height a t) p par T = is_tree t p par T"
  "is_tree (set_height a h t) p par T = is_tree t p par T"
  by (rule is_tree_cong, simp)+

lemma is_ctx_heights [simp]:
  "is_ctx (update_height a t) C p par = is_ctx t C p par"
  "is_ctx (set_height a h t) C p par = is_ctx t C p par"
  by (rule is_ctx_cong, simp_all)+

lemma update_height_ok:
  assumes "is_tree t (Some a) par (Node l a r)" "heights_ok t l" "heights_ok t r"
    "a \<notin> set_tree l" "a \<notin> set_tree r"
  shows "heights_ok (update_height a t) (Node l a r)"
proof -
  from assms have "height_or_0 t (left_of t a) = height l" "height_or_0 t (right_of t a) = height r"
    by (auto intro: height_or_0_is_tree)
  then have "height_of (update_height a t) a = max (height l) (height r) + 1"
    by simp
  moreover have "heights_ok (update_height a t) l = heights_ok t l"
    using assms by (intro heights_ok_cong) auto
  moreover have "heights_ok (update_height a t) r = heights_ok t r"
    using assms by (intro heights_ok_cong) auto
  ultimately show ?thesis using assms by simp
qed

lemma same_except_trans:
  "same_except A t t1 \<Longrightarrow> same_except A t1 t2 \<Longrightarrow> same_except A t t2"
  by (simp add: same_except_def)

lemma same_except_mono:
  "same_except A t t' \<Longrightarrow> A \<subseteq> B \<Longrightarrow> same_except B t t'"
  by (auto simp: same_except_def)

lemma same_except_update_height: "a \<in> A \<Longrightarrow> same_except A t (update_height a t)"
  by (auto simp: same_except_def nodes_update_height)

lemma same_except_set_height: "a \<in> A \<Longrightarrow> same_except A t (set_height a h t)"
  by (auto simp: same_except_def nodes_set_height)

lemma same_except_refl: "same_except A t t"
  by (simp add: same_except_def)

lemma is_ctx_parent_unique: "is_ctx t C p par \<Longrightarrow> is_ctx t' C p' par' \<Longrightarrow> par' = par"
  by (cases C rule: ctx_addrs.cases) auto

text \<open>A left rotation followed by the two height updates of \<^verbatim>\<open>fix_left\<close>.\<close>

lemma rotate_left_update:
  assumes c: "is_ctx t C (Some n) par"
    and s: "is_tree t (Some n) par (Node l n (Node rl y rr))"
    and d: "distinct (inorder (plug C (Node l n (Node rl y rr))))"
    and h: "heights_ok t l" "heights_ok t rl" "heights_ok t rr"
  shows "\<exists>t2 t'. rotate_left n t = Some (y, t2) \<and> left_of t2 y = Some n \<and>
           t' = update_height y (update_height n t2) \<and>
           is_ctx t' C (Some y) par \<and> is_tree t' (Some y) par (Node (Node l n rl) y rr) \<and>
           heights_ok t' (Node (Node l n rl) y rr) \<and>
           (\<forall>b. b \<noteq> n \<and> b \<noteq> y \<longrightarrow> height_of t' b = height_of t b) \<and>
           same_except (set_tree (plug C (Node l n (Node rl y rr)))) t t'"
proof -
  let ?A = "set_tree (plug C (Node l n (Node rl y rr)))"
  from rotate_left_correct[OF c s d] obtain t2 where
    r: "rotate_left n t = Some (y, t2)" and c2: "is_ctx t2 C (Some y) par"
    and s2: "is_tree t2 (Some y) par (Node (Node l n rl) y rr)"
    and h2: "\<forall>b. height_of t2 b = height_of t b" and e2: "same_except ?A t t2"
    by blast
  let ?t3 = "update_height n t2"
  let ?t' = "update_height y ?t3"
  from d have dS: "distinct (inorder l @ n # inorder rl @ y # inorder rr)"
    by (auto simp: inorder_plug)
  have ho2: "heights_ok t2 l" "heights_ok t2 rl" "heights_ok t2 rr"
    using h h2 by (auto simp: heights_ok_cong[of _ t2 t])
  from s2 have sn: "is_tree t2 (Some n) (Some y) (Node l n rl)" and ly: "left_of t2 y = Some n"
    by auto
  have h3: "heights_ok ?t3 (Node l n rl)"
    using sn ho2 dS by (intro update_height_ok) auto
  have "heights_ok ?t3 rr = heights_ok t2 rr"
    using dS by (intro heights_ok_cong) auto
  with ho2 have h3r: "heights_ok ?t3 rr" by simp
  have s3: "is_tree ?t3 (Some y) par (Node (Node l n rl) y rr)"
    using s2 by (simp only: is_tree_heights)
  have h': "heights_ok ?t' (Node (Node l n rl) y rr)"
    using dS by (intro update_height_ok[OF s3 h3 h3r]) auto
  have hb: "\<forall>b. b \<noteq> n \<and> b \<noteq> y \<longrightarrow> height_of ?t' b = height_of t b"
    using h2 by simp
  have "n \<in> ?A" "y \<in> ?A" by (auto simp: set_tree_plug)
  then have e': "same_except ?A t ?t'"
    using e2 by (blast intro: same_except_trans same_except_update_height)
  from r ly c2 s2 h' hb e' show ?thesis by simp
qed

lemma rotate_right_update:
  assumes c: "is_ctx t C (Some n) par"
    and s: "is_tree t (Some n) par (Node (Node ll y lr) n r)"
    and d: "distinct (inorder (plug C (Node (Node ll y lr) n r)))"
    and h: "heights_ok t ll" "heights_ok t lr" "heights_ok t r"
  shows "\<exists>t2 t'. rotate_right n t = Some (y, t2) \<and> right_of t2 y = Some n \<and>
           t' = update_height y (update_height n t2) \<and>
           is_ctx t' C (Some y) par \<and> is_tree t' (Some y) par (Node ll y (Node lr n r)) \<and>
           heights_ok t' (Node ll y (Node lr n r)) \<and>
           (\<forall>b. b \<noteq> n \<and> b \<noteq> y \<longrightarrow> height_of t' b = height_of t b) \<and>
           same_except (set_tree (plug C (Node (Node ll y lr) n r))) t t'"
proof -
  let ?A = "set_tree (plug C (Node (Node ll y lr) n r))"
  from rotate_right_correct[OF c s d] obtain t2 where
    r: "rotate_right n t = Some (y, t2)" and c2: "is_ctx t2 C (Some y) par"
    and s2: "is_tree t2 (Some y) par (Node ll y (Node lr n r))"
    and h2: "\<forall>b. height_of t2 b = height_of t b" and e2: "same_except ?A t t2"
    by blast
  let ?t3 = "update_height n t2"
  let ?t' = "update_height y ?t3"
  from d have dS: "distinct (inorder ll @ y # inorder lr @ n # inorder r)"
    by (auto simp: inorder_plug)
  have ho2: "heights_ok t2 ll" "heights_ok t2 lr" "heights_ok t2 r"
    using h h2 by (auto simp: heights_ok_cong[of _ t2 t])
  from s2 have sn: "is_tree t2 (Some n) (Some y) (Node lr n r)" and ry: "right_of t2 y = Some n"
    by auto
  have h3: "heights_ok ?t3 (Node lr n r)"
    using sn ho2 dS by (intro update_height_ok) auto
  have "heights_ok ?t3 ll = heights_ok t2 ll"
    using dS by (intro heights_ok_cong) auto
  with ho2 have h3l: "heights_ok ?t3 ll" by simp
  have s3: "is_tree ?t3 (Some y) par (Node ll y (Node lr n r))"
    using s2 by (simp only: is_tree_heights)
  have h': "heights_ok ?t' (Node ll y (Node lr n r))"
    using dS by (intro update_height_ok[OF s3 h3l h3]) auto
  have hb: "\<forall>b. b \<noteq> n \<and> b \<noteq> y \<longrightarrow> height_of ?t' b = height_of t b"
    using h2 by simp
  have "n \<in> ?A" "y \<in> ?A" by (auto simp: set_tree_plug)
  then have e': "same_except ?A t ?t'"
    using e2 by (blast intro: same_except_trans same_except_update_height)
  from r ry c2 s2 h' hb e' show ?thesis by simp
qed

lemma fix_left_correct:
  assumes c: "is_ctx t C (Some n) par"
    and s: "is_tree t (Some n) par (Node l n r)"
    and d: "distinct (inorder (plug C (Node l n r)))"
    and h: "heights_ok t l" "heights_ok t r"
    and r: "r \<noteq> Leaf"
  shows "\<exists>n' t' S'. fix_left n t = Some (n', t') \<and>
           is_ctx t' C (Some n') par \<and> is_tree t' (Some n') par S' \<and>
           inorder S' = inorder (Node l n r) \<and> heights_ok t' S' \<and>
           (\<forall>b. b \<notin> set_tree (Node l n r) \<longrightarrow> height_of t' b = height_of t b) \<and>
           same_except (set_tree (plug C (Node l n r))) t t'"
proof -
  from r obtain rl y rr where R: "r = Node rl y rr" by (cases r) auto
  from s R have f: "right_of t n = Some y" "parent_of t n = par"
    and sl: "is_tree t (left_of t n) (Some n) l" and sy: "is_tree t (Some y) (Some n) (Node rl y rr)"
    by auto
  from h R have hh: "heights_ok t rl" "heights_ok t rr" by auto
  from sy hh have g: "height_or_0 t (left_of t y) = height rl" "height_or_0 t (right_of t y) = height rr"
    by (auto intro: height_or_0_is_tree)
  show ?thesis
  proof (cases "height rl > height rr")
    case False
    from rotate_left_update[OF c s[unfolded R] d[unfolded R] h(1) hh]
    obtain t2 t' where "rotate_left n t = Some (y, t2)" "left_of t2 y = Some n"
      "t' = update_height y (update_height n t2)"
      "is_ctx t' C (Some y) par" "is_tree t' (Some y) par (Node (Node l n rl) y rr)"
      "heights_ok t' (Node (Node l n rl) y rr)"
      "\<forall>b. b \<noteq> n \<and> b \<noteq> y \<longrightarrow> height_of t' b = height_of t b"
      "same_except (set_tree (plug C (Node l n (Node rl y rr)))) t t'"
      by blast
    moreover from this f g False have "fix_left n t = Some (y, t')"
      by (simp add: fix_left_def)
    ultimately show ?thesis
      unfolding R
      by (intro exI[of _ y] exI[of _ t'] exI[of _ "Node (Node l n rl) y rr"]) auto
  next
    case True
    then obtain rll z rlr where RL: "rl = Node rll z rlr" by (cases rl) auto
    let ?C1 = "RightOf l n # C"
    have c1: "is_ctx t ?C1 (Some y) (Some n)"
      using c f sl by simp
    have s1: "is_tree t (Some y) (Some n) (Node (Node rll z rlr) y rr)"
      using sy RL by simp
    have d1: "distinct (inorder (plug ?C1 (Node (Node rll z rlr) y rr)))"
      using d R RL by simp
    from hh RL have h1: "heights_ok t rll" "heights_ok t rlr" by auto
    from rotate_right_update[OF c1 s1 d1 h1 hh(2)]
    obtain ta tb where a: "rotate_right y t = Some (z, ta)" "right_of ta z = Some y"
      "tb = update_height z (update_height y ta)"
      "is_ctx tb ?C1 (Some z) (Some n)" "is_tree tb (Some z) (Some n) (Node rll z (Node rlr y rr))"
      "heights_ok tb (Node rll z (Node rlr y rr))"
      "\<forall>b. b \<noteq> y \<and> b \<noteq> z \<longrightarrow> height_of tb b = height_of t b"
      "same_except (set_tree (plug ?C1 (Node (Node rll z rlr) y rr))) t tb"
      by blast
    from a(4) have cb: "is_ctx tb C (Some n) (parent_of tb n)" and rn: "right_of tb n = Some z"
      and slb: "is_tree tb (left_of tb n) (Some n) l"
      by auto
    from c cb have pb: "parent_of tb n = par" by (rule is_ctx_parent_unique)
    have sb: "is_tree tb (Some n) par (Node l n (Node rll z (Node rlr y rr)))"
      using slb rn a(5) pb by simp
    have db: "distinct (inorder (plug C (Node l n (Node rll z (Node rlr y rr)))))"
      using d R RL by (simp add: inorder_plug)
    from d R RL have nl: "y \<notin> set_tree l" "z \<notin> set_tree l" by (auto simp: inorder_plug)
    have "heights_ok tb l = heights_ok t l"
      using a(7) nl by (intro heights_ok_cong) auto
    with h have hlb: "heights_ok tb l" by simp
    from a(6) have hb: "heights_ok tb rll" "heights_ok tb (Node rlr y rr)" by auto
    from rotate_left_update[OF cb[unfolded pb] sb db hlb hb]
    obtain t2 t' where b: "rotate_left n tb = Some (z, t2)" "left_of t2 z = Some n"
      "t' = update_height z (update_height n t2)"
      "is_ctx t' C (Some z) par" "is_tree t' (Some z) par (Node (Node l n rll) z (Node rlr y rr))"
      "heights_ok t' (Node (Node l n rll) z (Node rlr y rr))"
      "\<forall>b. b \<noteq> n \<and> b \<noteq> z \<longrightarrow> height_of t' b = height_of tb b"
      "same_except (set_tree (plug C (Node l n (Node rll z (Node rlr y rr))))) tb t'"
      by blast
    have fx: "fix_left n t = Some (z, t')"
      using f g True a(1,2,3) b(1,2,3) by (simp add: fix_left_def)
    have A: "set_tree (plug ?C1 (Node (Node rll z rlr) y rr)) = set_tree (plug C (Node l n r))"
      "set_tree (plug C (Node l n (Node rll z (Node rlr y rr)))) = set_tree (plug C (Node l n r))"
      using R RL by (auto simp: set_tree_plug)
    have e: "same_except (set_tree (plug C (Node l n r))) t t'"
      using a(8) b(8) unfolding A by (rule same_except_trans)
    have hts: "\<forall>b. b \<notin> set_tree (Node l n r) \<longrightarrow> height_of t' b = height_of t b"
      using a(7) b(7) R RL by auto
    show ?thesis
      using fx b(4,5,6) e hts R RL
      by (intro exI[of _ z] exI[of _ t'] exI[of _ "Node (Node l n rll) z (Node rlr y rr)"]) auto
  qed
qed

lemma fix_right_correct:
  assumes c: "is_ctx t C (Some n) par"
    and s: "is_tree t (Some n) par (Node l n r)"
    and d: "distinct (inorder (plug C (Node l n r)))"
    and h: "heights_ok t l" "heights_ok t r"
    and l: "l \<noteq> Leaf"
  shows "\<exists>n' t' S'. fix_right n t = Some (n', t') \<and>
           is_ctx t' C (Some n') par \<and> is_tree t' (Some n') par S' \<and>
           inorder S' = inorder (Node l n r) \<and> heights_ok t' S' \<and>
           (\<forall>b. b \<notin> set_tree (Node l n r) \<longrightarrow> height_of t' b = height_of t b) \<and>
           same_except (set_tree (plug C (Node l n r))) t t'"
proof -
  from l obtain ll y lr where L: "l = Node ll y lr" by (cases l) auto
  from s L have f: "left_of t n = Some y" "parent_of t n = par"
    and sr: "is_tree t (right_of t n) (Some n) r" and sy: "is_tree t (Some y) (Some n) (Node ll y lr)"
    by auto
  from h L have hh: "heights_ok t ll" "heights_ok t lr" by auto
  from sy hh have g: "height_or_0 t (left_of t y) = height ll" "height_or_0 t (right_of t y) = height lr"
    by (auto intro: height_or_0_is_tree)
  show ?thesis
  proof (cases "height ll < height lr")
    case False
    from rotate_right_update[OF c s[unfolded L] d[unfolded L] hh h(2)]
    obtain t2 t' where "rotate_right n t = Some (y, t2)" "right_of t2 y = Some n"
      "t' = update_height y (update_height n t2)"
      "is_ctx t' C (Some y) par" "is_tree t' (Some y) par (Node ll y (Node lr n r))"
      "heights_ok t' (Node ll y (Node lr n r))"
      "\<forall>b. b \<noteq> n \<and> b \<noteq> y \<longrightarrow> height_of t' b = height_of t b"
      "same_except (set_tree (plug C (Node (Node ll y lr) n r))) t t'"
      by blast
    moreover from this f g False have "fix_right n t = Some (y, t')"
      by (simp add: fix_right_def)
    ultimately show ?thesis
      unfolding L
      by (intro exI[of _ y] exI[of _ t'] exI[of _ "Node ll y (Node lr n r)"]) auto
  next
    case True
    then obtain lrl z lrr where LR: "lr = Node lrl z lrr" by (cases lr) auto
    let ?C1 = "LeftOf n r # C"
    have c1: "is_ctx t ?C1 (Some y) (Some n)"
      using c f sr by simp
    have s1: "is_tree t (Some y) (Some n) (Node ll y (Node lrl z lrr))"
      using sy LR by simp
    have d1: "distinct (inorder (plug ?C1 (Node ll y (Node lrl z lrr))))"
      using d L LR by simp
    from hh LR have h1: "heights_ok t lrl" "heights_ok t lrr" by auto
    from rotate_left_update[OF c1 s1 d1 hh(1) h1]
    obtain ta tb where a: "rotate_left y t = Some (z, ta)" "left_of ta z = Some y"
      "tb = update_height z (update_height y ta)"
      "is_ctx tb ?C1 (Some z) (Some n)" "is_tree tb (Some z) (Some n) (Node (Node ll y lrl) z lrr)"
      "heights_ok tb (Node (Node ll y lrl) z lrr)"
      "\<forall>b. b \<noteq> y \<and> b \<noteq> z \<longrightarrow> height_of tb b = height_of t b"
      "same_except (set_tree (plug ?C1 (Node ll y (Node lrl z lrr)))) t tb"
      by blast
    from a(4) have cb: "is_ctx tb C (Some n) (parent_of tb n)" and ln: "left_of tb n = Some z"
      and srb: "is_tree tb (right_of tb n) (Some n) r"
      by auto
    from c cb have pb: "parent_of tb n = par" by (rule is_ctx_parent_unique)
    have sb: "is_tree tb (Some n) par (Node (Node (Node ll y lrl) z lrr) n r)"
      using srb ln a(5) pb by simp
    have db: "distinct (inorder (plug C (Node (Node (Node ll y lrl) z lrr) n r)))"
      using d L LR by (simp add: inorder_plug)
    from d L LR have nr: "y \<notin> set_tree r" "z \<notin> set_tree r" by (auto simp: inorder_plug)
    have "heights_ok tb r = heights_ok t r"
      using a(7) nr by (intro heights_ok_cong) auto
    with h have hrb: "heights_ok tb r" by simp
    from a(6) have hb: "heights_ok tb (Node ll y lrl)" "heights_ok tb lrr" by auto
    from rotate_right_update[OF cb[unfolded pb] sb db hb hrb]
    obtain t2 t' where b: "rotate_right n tb = Some (z, t2)" "right_of t2 z = Some n"
      "t' = update_height z (update_height n t2)"
      "is_ctx t' C (Some z) par" "is_tree t' (Some z) par (Node (Node ll y lrl) z (Node lrr n r))"
      "heights_ok t' (Node (Node ll y lrl) z (Node lrr n r))"
      "\<forall>b. b \<noteq> n \<and> b \<noteq> z \<longrightarrow> height_of t' b = height_of tb b"
      "same_except (set_tree (plug C (Node (Node (Node ll y lrl) z lrr) n r))) tb t'"
      by blast
    have fx: "fix_right n t = Some (z, t')"
      using f g True a(1,2,3) b(1,2,3) by (simp add: fix_right_def)
    have A: "set_tree (plug ?C1 (Node ll y (Node lrl z lrr))) = set_tree (plug C (Node l n r))"
      "set_tree (plug C (Node (Node (Node ll y lrl) z lrr) n r)) = set_tree (plug C (Node l n r))"
      using L LR by (auto simp: set_tree_plug)
    have e: "same_except (set_tree (plug C (Node l n r))) t t'"
      using a(8) b(8) unfolding A by (rule same_except_trans)
    have hts: "\<forall>b. b \<notin> set_tree (Node l n r) \<longrightarrow> height_of t' b = height_of t b"
      using a(7) b(7) L LR by auto
    show ?thesis
      using fx b(4,5,6) e hts L LR
      by (intro exI[of _ z] exI[of _ t'] exI[of _ "Node (Node ll y lrl) z (Node lrr n r)"]) auto
  qed
qed

section \<open>The rebalance walk\<close>

text \<open>
  The walk comes to an end without a null dereference, leaves a well-formed tree with the
  same in-order sequence, and makes every stored height correct. It does not always leave
  the tree balanced: see the last section.
\<close>

lemma rebalance_loop_None: "rebalance_loop None t = Some t"
  by (subst rebalance_loop.simps) simp

lemma height_lt_bound:
  fixes T S :: "addr tree"
  assumes "size (plug C S) < 2 ^ 31" "size T \<le> size S"
  shows "height T < 2 ^ 31"
proof -
  have "height T \<le> size T" by (rule height_le_size_tree)
  also have "\<dots> \<le> size (plug C S)" using assms(2) size_plug_mono[of S C] by simp
  finally show ?thesis using assms(1) by simp
qed

lemma rebalance_loop_correct:
  "is_ctx t C (Some n) par \<Longrightarrow> is_tree t (Some n) par (Node l n r) \<Longrightarrow>
   distinct (inorder (plug C (Node l n r))) \<Longrightarrow> heights_ok t l \<Longrightarrow> heights_ok t r \<Longrightarrow>
   ctx_heights t C (height_of t n) \<Longrightarrow> size (plug C (Node l n r)) < 2 ^ 31 \<Longrightarrow>
   \<exists>t' T'. rebalance_loop (Some n) t = Some t' \<and> wf_tree t' T' \<and>
          inorder T' = inorder (plug C (Node l n r)) \<and> heights_ok t' T' \<and>
          same_except (set_tree (plug C (Node l n r))) t t'"
proof (induction "length C" arbitrary: C t n par l r rule: less_induct)
  case less
  let ?S = "Node l n r"
  let ?A = "set_tree (plug C ?S)"
  let ?h = "max (height l) (height r) + 1"
  note c = less.prems(1) and s = less.prems(2) and d = less.prems(3)
    and hl = less.prems(4) and hr = less.prems(5) and ch = less.prems(6) and b = less.prems(7)
  from s have sl: "is_tree t (left_of t n) (Some n) l" and sr: "is_tree t (right_of t n) (Some n) r"
    and pn: "parent_of t n = par"
    by auto
  have g: "height_or_0 t (left_of t n) = height l" "height_or_0 t (right_of t n) = height r"
    using sl sr hl hr by (auto intro: height_or_0_is_tree)
  have "height l < 2 ^ 31" "height r < 2 ^ 31"
    using height_lt_bound[OF b, of l] height_lt_bound[OF b, of r] by simp_all
  then have i32: "int32 (height l) = int (height l)" "int32 (height r) = int (height r)"
    by (auto intro: int32_small)
  from d have dS: "distinct (inorder ?S)" and dCS: "ctx_addrs C \<inter> set_tree ?S = {}"
    by (auto simp: inorder_plug set_ctx_addrs)
  text \<open>The walk from the parent of a repaired subtree.\<close>
  have climb: "\<exists>t' T'. rebalance_loop par t2 = Some t' \<and> wf_tree t' T' \<and>
          inorder T' = inorder (plug C ?S) \<and> heights_ok t' T' \<and> same_except ?A t t'"
    if c2: "is_ctx t2 C (Some n') par" and s2: "is_tree t2 (Some n') par S'"
      and i2: "inorder S' = inorder ?S" and h2: "heights_ok t2 S'"
      and o2: "\<forall>b. b \<notin> set_tree ?S \<longrightarrow> height_of t2 b = height_of t b"
      and e2: "same_except ?A t t2"
    for t2 n' S'
  proof -
    have io: "inorder (plug C S') = inorder (plug C ?S)" using i2 by (simp add: inorder_plug)
    have st: "set_tree (plug C S') = ?A"
      using arg_cong[OF io, of set] by simp
    have sz: "size (plug C S') = size (plug C ?S)"
      using arg_cong[OF io, of length] by (simp only: length_inorder)
    have ch2: "ctx_heights t2 C (height_of t n)"
      using ch o2 dCS by (subst ctx_heights_cong[of C t2 t]) auto
    show ?thesis
    proof (cases C rule: ctx_addrs.cases)
      case 1
      with c2 s2 have "is_tree t2 (root t2) None S'" "par = None" by auto
      then have "wf_tree t2 S'" "rebalance_loop par t2 = Some t2"
        using d io 1 by (auto simp: wf_tree_def rebalance_loop_None)
      then show ?thesis using io 1 h2 e2 by auto
    next
      case (2 p sib C')
      with c2 have p: "par = Some p" "left_of t2 p = Some n'"
        and ss: "is_tree t2 (right_of t2 p) (Some p) sib"
        and c': "is_ctx t2 C' (Some p) (parent_of t2 p)"
        by auto
      have sp: "is_tree t2 (Some p) (parent_of t2 p) (Node S' p sib)"
        using p ss s2 by simp
      have pl: "plug C' (Node S' p sib) = plug C S'" using 2 by simp
      from ch2 2 have hs: "heights_ok t2 sib" and ch': "ctx_heights t2 C' (height_of t2 p)"
        by auto
      from less.hyps[of C' t2 p "parent_of t2 p" S' sib, OF _ c' sp _ h2 hs ch']
      obtain t' T' where "rebalance_loop (Some p) t2 = Some t'" "wf_tree t' T'"
        "inorder T' = inorder (plug C S')" "heights_ok t' T'"
        "same_except (set_tree (plug C S')) t2 t'"
        using 2 d io b sz unfolding pl by auto
      then show ?thesis
        using p io st e2 by (auto intro: same_except_trans)
    next
      case (3 sib p C')
      with c2 have p: "par = Some p" "right_of t2 p = Some n'"
        and ss: "is_tree t2 (left_of t2 p) (Some p) sib"
        and c': "is_ctx t2 C' (Some p) (parent_of t2 p)"
        by auto
      have sp: "is_tree t2 (Some p) (parent_of t2 p) (Node sib p S')"
        using p ss s2 by simp
      have pl: "plug C' (Node sib p S') = plug C S'" using 3 by simp
      from ch2 3 have hs: "heights_ok t2 sib" and ch': "ctx_heights t2 C' (height_of t2 p)"
        by auto
      from less.hyps[of C' t2 p "parent_of t2 p" sib S', OF _ c' sp _ hs h2 ch']
      obtain t' T' where "rebalance_loop (Some p) t2 = Some t'" "wf_tree t' T'"
        "inorder T' = inorder (plug C S')" "heights_ok t' T'"
        "same_except (set_tree (plug C S')) t2 t'"
        using 3 d io b sz unfolding pl by auto
      then show ?thesis
        using p io st e2 by (auto intro: same_except_trans)
    qed
  qed
  show ?case
  proof (cases "height_of t n = ?h")
    case True
    then have "rebalance_loop (Some n) t = Some t"
      using g by (subst rebalance_loop.simps) (simp add: Let_def)
    moreover have "wf_tree t (plug C ?S)"
      using c s d by (auto simp: wf_tree_def intro: is_ctx_plug)
    moreover have "heights_ok t (plug C ?S)"
      using hl hr ch True by (simp add: heights_ok_plug)
    ultimately show ?thesis by (auto simp: same_except_refl)
  next
    case False
    let ?t1 = "set_height n ?h t"
    have c1: "is_ctx ?t1 C (Some n) par" using c by simp
    have s1: "is_tree ?t1 (Some n) par ?S" using s by (simp only: is_tree_heights)
    have "heights_ok ?t1 l = heights_ok t l" "heights_ok ?t1 r = heights_ok t r"
      using dS by (auto intro!: heights_ok_cong)
    with hl hr have h1: "heights_ok ?t1 l" "heights_ok ?t1 r" by auto
    then have hS1: "heights_ok ?t1 ?S" by simp
    have o1: "\<forall>b. b \<notin> set_tree ?S \<longrightarrow> height_of ?t1 b = height_of t b" by simp
    have e1: "same_except ?A t ?t1"
      by (rule same_except_set_height) (simp add: set_tree_plug)
    have unf: "rebalance_loop (Some n) t =
        (if int (height l) - int (height r) \<le> - 2 then
           fix_left n ?t1 \<bind> (\<lambda>(n', t2). rebalance_loop (parent_of t2 n') t2)
         else if int (height l) - int (height r) \<ge> 2 then
           fix_right n ?t1 \<bind> (\<lambda>(n', t2). rebalance_loop (parent_of t2 n') t2)
         else rebalance_loop (parent_of ?t1 n) ?t1)"
      using False g i32 by (subst rebalance_loop.simps) (simp add: Let_def)
    consider (L) "int (height l) - int (height r) \<le> - 2"
      | (R) "int (height l) - int (height r) \<ge> 2"
      | (N) "\<not> int (height l) - int (height r) \<le> - 2" "\<not> int (height l) - int (height r) \<ge> 2"
      by linarith
    then show ?thesis
    proof cases
      case L
      then have "r \<noteq> Leaf" by auto
      from fix_left_correct[OF c1 s1 d h1 this]
      obtain n' t2 S' where f: "fix_left n ?t1 = Some (n', t2)"
        "is_ctx t2 C (Some n') par" "is_tree t2 (Some n') par S'"
        "inorder S' = inorder ?S" "heights_ok t2 S'"
        "\<forall>b. b \<notin> set_tree ?S \<longrightarrow> height_of t2 b = height_of ?t1 b"
        "same_except ?A ?t1 t2"
        by blast
      from f(3,4) have "parent_of t2 n' = par" by (cases S') auto
      moreover have "\<forall>b. b \<notin> set_tree ?S \<longrightarrow> height_of t2 b = height_of t b"
        using f(6) o1 by simp
      moreover have "same_except ?A t t2"
        using e1 f(7) by (rule same_except_trans)
      ultimately show ?thesis
        using climb[OF f(2,3,4,5)] unf L f(1) by simp
    next
      case R
      then have "l \<noteq> Leaf" by auto
      from fix_right_correct[OF c1 s1 d h1 this]
      obtain n' t2 S' where f: "fix_right n ?t1 = Some (n', t2)"
        "is_ctx t2 C (Some n') par" "is_tree t2 (Some n') par S'"
        "inorder S' = inorder ?S" "heights_ok t2 S'"
        "\<forall>b. b \<notin> set_tree ?S \<longrightarrow> height_of t2 b = height_of ?t1 b"
        "same_except ?A ?t1 t2"
        by blast
      from f(3,4) have "parent_of t2 n' = par" by (cases S') auto
      moreover have "\<forall>b. b \<notin> set_tree ?S \<longrightarrow> height_of t2 b = height_of t b"
        using f(6) o1 by simp
      moreover have "same_except ?A t t2"
        using e1 f(7) by (rule same_except_trans)
      moreover have "\<not> int (height l) - int (height r) \<le> - 2" using R by linarith
      ultimately show ?thesis
        using climb[OF f(2,3,4,5)] unf R f(1) by simp
    next
      case N
      have "parent_of ?t1 n = par" using pn by simp
      then show ?thesis
        using climb[OF c1 s1 refl hS1 o1 e1] unf N by simp
    qed
  qed
qed

section \<open>Linking a fresh leaf\<close>

lemma mSize_update_shape [simp]:
  "is_tree (t\<lparr>mSize := k\<rparr>) p par T = is_tree t p par T"
  "heights_ok (t\<lparr>mSize := k\<rparr>) T = heights_ok t T"
  "wf_tree (t\<lparr>mSize := k\<rparr>) T = wf_tree t T"
  "vals (t\<lparr>mSize := k\<rparr>) T = vals t T"
  "val (nodes (t\<lparr>mSize := k\<rparr>) b) = val (nodes t b)"
proof -
  show a: "is_tree (t\<lparr>mSize := k\<rparr>) p par T = is_tree t p par T" for p par
    by (rule is_tree_cong) simp
  show "heights_ok (t\<lparr>mSize := k\<rparr>) T = heights_ok t T"
    by (rule heights_ok_cong) simp
  show "wf_tree (t\<lparr>mSize := k\<rparr>) T = wf_tree t T"
    by (simp add: wf_tree_def a)
  show "vals (t\<lparr>mSize := k\<rparr>) T = vals t T"
    by (simp add: vals_def)
  show "val (nodes (t\<lparr>mSize := k\<rparr>) b) = val (nodes t b)"
    by simp
qed

lemma vals_same: "(\<forall>b. val (nodes t' b) = val (nodes t b)) \<Longrightarrow> vals t' T = vals t T"
  by (simp add: vals_def)

lemma fix_insert_left:
  assumes c: "is_ctx t C (Some cur) par" and pc: "parent_of t cur = par"
    and lc: "left_of t cur = Some node" and lk: "parent_of t node = Some cur"
    and sr: "is_tree t (right_of t cur) (Some cur) r"
    and d: "distinct (inorder (plug C (Node (Node Leaf node Leaf) cur r)))"
    and h: "heights_ok t r" "ctx_heights t C (height_of t cur)"
    and b: "size (plug C (Node (Node Leaf node Leaf) cur r)) < 2 ^ 31"
  shows "\<exists>t' T'. fix_insert node t = Some t' \<and> wf_tree t' T' \<and>
          inorder T' = inorder (plug C (Node (Node Leaf node Leaf) cur r)) \<and> heights_ok t' T' \<and>
          same_except (set_tree (plug C (Node (Node Leaf node Leaf) cur r))) t t'"
proof -
  let ?S = "Node (Node Leaf node Leaf) cur r"
  let ?t1 = "set_height node 1 (set_left node None (set_right node None t))"
  from d have nc: "node \<noteq> cur" "node \<notin> ctx_addrs C" "cur \<notin> ctx_addrs C"
    "node \<notin> set_tree r" "cur \<notin> set_tree r"
    by (auto simp: inorder_plug set_ctx_addrs)
  have p1: "parent_of ?t1 node = Some cur" using lk by simp
  have c1: "is_ctx ?t1 C (Some cur) par"
    using c nc by (subst is_ctx_cong[of C _ t]) auto
  have sr1: "is_tree ?t1 (right_of t cur) (Some cur) r"
    using sr nc by (subst is_tree_cong[of r _ t]) auto
  have hn: "heights_ok ?t1 (Node Leaf node Leaf)" by simp
  have "heights_ok ?t1 r = heights_ok t r"
    using nc by (auto intro!: heights_ok_cong)
  with h have h1: "heights_ok ?t1 r" by auto
  have ch1: "ctx_heights ?t1 C (height_of ?t1 cur)"
    using h(2) nc by (subst ctx_heights_cong[of C _ t]) auto
  have e1: "same_except (set_tree (plug C ?S)) t ?t1"
    by (auto simp: same_except_def set_tree_plug nodes_set_height nodes_set_other)
  have s1: "is_tree ?t1 (Some cur) par ?S"
    using sr1 pc lk lc nc by simp
  from rebalance_loop_correct[OF c1 s1 d hn h1 ch1 b]
  obtain t' T' where "rebalance_loop (Some cur) ?t1 = Some t'" "wf_tree t' T'"
    "inorder T' = inorder (plug C ?S)" "heights_ok t' T'"
    "same_except (set_tree (plug C ?S)) ?t1 t'"
    by blast
  then show ?thesis
    using p1 e1 by (auto simp: fix_insert_def Let_def rebalance_def intro: same_except_trans)
qed

lemma fix_insert_right:
  assumes c: "is_ctx t C (Some cur) par" and pc: "parent_of t cur = par"
    and rc: "right_of t cur = Some node" and lk: "parent_of t node = Some cur"
    and sl: "is_tree t (left_of t cur) (Some cur) l"
    and d: "distinct (inorder (plug C (Node l cur (Node Leaf node Leaf))))"
    and h: "heights_ok t l" "ctx_heights t C (height_of t cur)"
    and b: "size (plug C (Node l cur (Node Leaf node Leaf))) < 2 ^ 31"
  shows "\<exists>t' T'. fix_insert node t = Some t' \<and> wf_tree t' T' \<and>
          inorder T' = inorder (plug C (Node l cur (Node Leaf node Leaf))) \<and> heights_ok t' T' \<and>
          same_except (set_tree (plug C (Node l cur (Node Leaf node Leaf)))) t t'"
proof -
  let ?S = "Node l cur (Node Leaf node Leaf)"
  let ?t1 = "set_height node 1 (set_left node None (set_right node None t))"
  from d have nc: "node \<noteq> cur" "node \<notin> ctx_addrs C" "cur \<notin> ctx_addrs C"
    "node \<notin> set_tree l" "cur \<notin> set_tree l"
    by (auto simp: inorder_plug set_ctx_addrs)
  have p1: "parent_of ?t1 node = Some cur" using lk by simp
  have c1: "is_ctx ?t1 C (Some cur) par"
    using c nc by (subst is_ctx_cong[of C _ t]) auto
  have sl1: "is_tree ?t1 (left_of t cur) (Some cur) l"
    using sl nc by (subst is_tree_cong[of l _ t]) auto
  have hn: "heights_ok ?t1 (Node Leaf node Leaf)" by simp
  have "heights_ok ?t1 l = heights_ok t l"
    using nc by (auto intro!: heights_ok_cong)
  with h have h1: "heights_ok ?t1 l" by auto
  have ch1: "ctx_heights ?t1 C (height_of ?t1 cur)"
    using h(2) nc by (subst ctx_heights_cong[of C _ t]) auto
  have e1: "same_except (set_tree (plug C ?S)) t ?t1"
    by (auto simp: same_except_def set_tree_plug nodes_set_height nodes_set_other)
  have s1: "is_tree ?t1 (Some cur) par ?S"
    using sl1 pc lk rc nc by simp
  from rebalance_loop_correct[OF c1 s1 d h1 hn ch1 b]
  obtain t' T' where "rebalance_loop (Some cur) ?t1 = Some t'" "wf_tree t' T'"
    "inorder T' = inorder (plug C ?S)" "heights_ok t' T'"
    "same_except (set_tree (plug C ?S)) ?t1 t'"
    by blast
  then show ?thesis
    using p1 e1 by (auto simp: fix_insert_def Let_def rebalance_def intro: same_except_trans)
qed

lemma link_left_correct:
  assumes c: "is_ctx t C (Some cur) par"
    and s: "is_tree t (Some cur) par (Node Leaf cur r)"
    and d: "distinct (inorder (plug C (Node Leaf cur r)))"
    and n: "node \<notin> set_tree (plug C (Node Leaf cur r))"
    and h: "heights_ok t (plug C (Node Leaf cur r))"
    and b: "size (plug C (Node Leaf cur r)) + 1 < 2 ^ 31"
  shows "\<exists>t'. link_left node cur t = Some t' \<and>
           linked t (plug C (Node Leaf cur r)) node (ctx_before C) (cur # inorder r @ ctx_after C) t'"
proof -
  let ?T = "plug C (Node Leaf cur r)"
  let ?S = "Node (Node Leaf node Leaf) cur r"
  let ?t1 = "set_parent node (Some cur) (set_left cur (Some node) t)"
  from d n have nc: "node \<noteq> cur" "node \<notin> ctx_addrs C" "cur \<notin> ctx_addrs C"
    "node \<notin> set_tree r" "cur \<notin> set_tree r"
    by (auto simp: inorder_plug set_ctx_addrs set_tree_plug)
  from s have pc: "parent_of t cur = par" and sr: "is_tree t (right_of t cur) (Some cur) r"
    by auto
  from h have hr: "heights_ok t r" and ch: "ctx_heights t C (height_of t cur)"
    by (auto simp: heights_ok_plug)
  have c1: "is_ctx ?t1 C (Some cur) par"
    using c nc by (subst is_ctx_cong[of C _ t]) auto
  have sr1: "is_tree ?t1 (right_of ?t1 cur) (Some cur) r"
    using sr nc by (subst is_tree_cong[of r _ t]) auto
  have "heights_ok ?t1 r = heights_ok t r"
    by (auto intro!: heights_ok_cong)
  with hr have hr1: "heights_ok ?t1 r" by simp
  have ch1: "ctx_heights ?t1 C (height_of ?t1 cur)"
    using ch by (subst ctx_heights_cong[of C _ t]) auto
  have d1: "distinct (inorder (plug C ?S))"
    using d n by (auto simp: inorder_plug set_tree_plug set_ctx_addrs)
  have b1: "size (plug C ?S) < 2 ^ 31"
  proof -
    have "size (plug C ?S) = length (inorder (plug C ?S))" by (simp only: length_inorder)
    also have "\<dots> = length (inorder ?T) + 1" by (simp add: inorder_plug)
    also have "\<dots> = size ?T + 1" by (simp only: length_inorder)
    finally show ?thesis using b by simp
  qed
  from fix_insert_left[OF c1 _ _ _ sr1 d1 hr1 ch1 b1]
  obtain t' T' where f: "fix_insert node ?t1 = Some t'" "wf_tree t' T'"
    "inorder T' = inorder (plug C ?S)" "heights_ok t' T'"
    "same_except (set_tree (plug C ?S)) ?t1 t'"
    using pc nc by auto
  have st: "set_tree (plug C ?S) = insert node (set_tree ?T)"
    by (auto simp: set_tree_plug)
  have e: "same_except (insert node (set_tree ?T)) t ?t1"
    by (auto simp: same_except_def set_tree_plug nodes_set_other)
  with f(5) have e': "same_except (insert node (set_tree ?T)) t t'"
    unfolding st by (rule same_except_trans[rotated])
  have "linked t ?T node (ctx_before C) (cur # inorder r @ ctx_after C) (t'\<lparr>mSize := mSize t' + 1\<rparr>)"
    unfolding linked_def using f(2,3,4) e'
    by (intro exI[of _ T']) (simp add: inorder_plug same_except_def)
  then show ?thesis
    using f(1) by (simp add: link_left_def)
qed

lemma link_right_correct:
  assumes c: "is_ctx t C (Some cur) par"
    and s: "is_tree t (Some cur) par (Node l cur Leaf)"
    and d: "distinct (inorder (plug C (Node l cur Leaf)))"
    and n: "node \<notin> set_tree (plug C (Node l cur Leaf))"
    and h: "heights_ok t (plug C (Node l cur Leaf))"
    and b: "size (plug C (Node l cur Leaf)) + 1 < 2 ^ 31"
  shows "\<exists>t'. link_right node cur t = Some t' \<and>
           linked t (plug C (Node l cur Leaf)) node (ctx_before C @ inorder l @ [cur]) (ctx_after C) t'"
proof -
  let ?T = "plug C (Node l cur Leaf)"
  let ?S = "Node l cur (Node Leaf node Leaf)"
  let ?t1 = "set_parent node (Some cur) (set_right cur (Some node) t)"
  from d n have nc: "node \<noteq> cur" "node \<notin> ctx_addrs C" "cur \<notin> ctx_addrs C"
    "node \<notin> set_tree l" "cur \<notin> set_tree l"
    by (auto simp: inorder_plug set_ctx_addrs set_tree_plug)
  from s have pc: "parent_of t cur = par" and sl: "is_tree t (left_of t cur) (Some cur) l"
    by auto
  from h have hl: "heights_ok t l" and ch: "ctx_heights t C (height_of t cur)"
    by (auto simp: heights_ok_plug)
  have c1: "is_ctx ?t1 C (Some cur) par"
    using c nc by (subst is_ctx_cong[of C _ t]) auto
  have sl1: "is_tree ?t1 (left_of ?t1 cur) (Some cur) l"
    using sl nc by (subst is_tree_cong[of l _ t]) auto
  have "heights_ok ?t1 l = heights_ok t l"
    by (auto intro!: heights_ok_cong)
  with hl have hl1: "heights_ok ?t1 l" by simp
  have ch1: "ctx_heights ?t1 C (height_of ?t1 cur)"
    using ch by (subst ctx_heights_cong[of C _ t]) auto
  have d1: "distinct (inorder (plug C ?S))"
    using d n by (auto simp: inorder_plug set_tree_plug set_ctx_addrs)
  have b1: "size (plug C ?S) < 2 ^ 31"
  proof -
    have "size (plug C ?S) = length (inorder (plug C ?S))" by (simp only: length_inorder)
    also have "\<dots> = length (inorder ?T) + 1" by (simp add: inorder_plug)
    also have "\<dots> = size ?T + 1" by (simp only: length_inorder)
    finally show ?thesis using b by simp
  qed
  from fix_insert_right[OF c1 _ _ _ sl1 d1 hl1 ch1 b1]
  obtain t' T' where f: "fix_insert node ?t1 = Some t'" "wf_tree t' T'"
    "inorder T' = inorder (plug C ?S)" "heights_ok t' T'"
    "same_except (set_tree (plug C ?S)) ?t1 t'"
    using pc nc by auto
  have st: "set_tree (plug C ?S) = insert node (set_tree ?T)"
    by (auto simp: set_tree_plug)
  have e: "same_except (insert node (set_tree ?T)) t ?t1"
    by (auto simp: same_except_def set_tree_plug nodes_set_other)
  with f(5) have e': "same_except (insert node (set_tree ?T)) t t'"
    unfolding st by (rule same_except_trans[rotated])
  have "linked t ?T node (ctx_before C @ inorder l @ [cur]) (ctx_after C) (t'\<lparr>mSize := mSize t' + 1\<rparr>)"
    unfolding linked_def using f(2,3,4) e'
    by (intro exI[of _ T']) (simp add: inorder_plug same_except_def)
  then show ?thesis
    using f(1) by (simp add: link_right_def)
qed

lemma link_as_root_correct:
  assumes "wf_tree t Leaf"
  shows "linked t Leaf node [] [] ((link_as_root node t)\<lparr>mSize := mSize (link_as_root node t) + 1\<rparr>)"
    and "wf_tree (link_as_root node t) (Node Leaf node Leaf)"
    and "heights_ok (link_as_root node t) (Node Leaf node Leaf)"
proof -
  let ?t = "link_as_root node t"
  show w: "wf_tree ?t (Node Leaf node Leaf)"
    by (simp add: wf_tree_def link_as_root_def)
  show h: "heights_ok ?t (Node Leaf node Leaf)"
    by (simp add: link_as_root_def)
  have "mSize ?t = mSize t" "\<forall>b. val (nodes ?t b) = val (nodes t b)"
    "\<forall>b. b \<noteq> node \<longrightarrow> nodes ?t b = nodes t b"
    by (simp_all add: link_as_root_def nodes_set_other nodes_set_height)
  then show "linked t Leaf node [] [] (?t\<lparr>mSize := mSize ?t + 1\<rparr>)"
    unfolding linked_def using w h by (intro exI[of _ "Node Leaf node Leaf"]) simp
qed

lemma linkedD:
  assumes "linked t T node xs ys t'"
  obtains T' where "wf_tree t' T'" "inorder T = xs @ ys" "inorder T' = xs @ node # ys"
    "heights_ok t' T'" "mSize t' = mSize t + 1" "\<forall>b. val (nodes t' b) = val (nodes t b)"
    "\<forall>b. b \<notin> insert node (set_tree T) \<longrightarrow> nodes t' b = nodes t b"
  using assms unfolding linked_def by blast

section \<open>Lookup and \<^verbatim>\<open>insert_unique\<close>\<close>

lemma find_loop_None: "find_loop t v None = Some None"
  by (subst find_loop.simps) simp

lemma find_loop_member:
  "is_tree t p par T \<Longrightarrow> sorted_wrt (<) (vals t T) \<Longrightarrow> a \<in> set_tree T \<Longrightarrow>
   find_loop t (val (nodes t a)) p = Some (Some a)"
proof (induction T arbitrary: p par)
  case Leaf
  then show ?case by simp
next
  case (Node l x r)
  from Node.prems(1) have p: "p = Some x"
    and tl: "is_tree t (left_of t x) (Some x) l" and tr: "is_tree t (right_of t x) (Some x) r"
    by auto
  from Node.prems(2) have sl: "sorted_wrt (<) (vals t l)" and sr: "sorted_wrt (<) (vals t r)"
    and lo: "\<forall>b\<in>set_tree l. val (nodes t b) < val (nodes t x)"
    and hi: "\<forall>b\<in>set_tree r. val (nodes t x) < val (nodes t b)"
    by (auto simp: vals_def sorted_wrt_append)
  from Node.prems(3) consider "a \<in> set_tree l" | "a = x" | "a \<in> set_tree r" by auto
  then show ?case
  proof cases
    case 1
    with lo have "val (nodes t a) < val (nodes t x)" by simp
    then show ?thesis
      unfolding p using Node.IH(1)[OF tl sl 1] by (subst find_loop.simps) simp
  next
    case 2
    then show ?thesis unfolding p by (subst find_loop.simps) simp
  next
    case 3
    with hi have "val (nodes t x) < val (nodes t a)" by simp
    then show ?thesis
      unfolding p using Node.IH(2)[OF tr sr 3] by (subst find_loop.simps) (simp add: less_not_sym)
  qed
qed

lemma find_loop_absent:
  "is_tree t p par T \<Longrightarrow> v \<notin> set (vals t T) \<Longrightarrow> find_loop t v p = Some None"
proof (induction T arbitrary: p par)
  case Leaf
  then show ?case by (simp add: find_loop_None)
next
  case (Node l x r)
  from Node.prems(1) have p: "p = Some x"
    and tl: "is_tree t (left_of t x) (Some x) l" and tr: "is_tree t (right_of t x) (Some x) r"
    by auto
  from Node.prems(2) have n: "v \<notin> set (vals t l)" "v \<notin> set (vals t r)" "v \<noteq> val (nodes t x)"
    by (auto simp: vals_def)
  show ?case
    unfolding p using Node.IH(1)[OF tl n(1)] Node.IH(2)[OF tr n(2)] n(3)
    by (subst find_loop.simps) auto
qed

lemma find_avl_member:
  "wf_tree t T \<Longrightarrow> sorted_wrt (<) (vals t T) \<Longrightarrow> a \<in> set_tree T \<Longrightarrow>
   find_avl t (val (nodes t a)) = Some (Some a)"
  unfolding find_avl_def wf_tree_def by (blast intro: find_loop_member)

lemma find_avl_absent:
  "wf_tree t T \<Longrightarrow> v \<notin> set (vals t T) \<Longrightarrow> find_avl t v = Some None"
  unfolding find_avl_def wf_tree_def by (blast intro: find_loop_absent)

text \<open>On a tie the descent of \<^verbatim>\<open>insert_unique\<close> stops and changes nothing.\<close>

lemma insert_unique_loop_tie:
  "is_tree t (Some cur) par T \<Longrightarrow> sorted_wrt (<) (vals t T) \<Longrightarrow> a \<in> set_tree T \<Longrightarrow>
   val (nodes t a) = val (nodes t node) \<Longrightarrow> insert_unique_loop node cur t = Some (False, t)"
proof (induction T arbitrary: cur par)
  case Leaf
  then show ?case by simp
next
  case (Node l x r)
  from Node.prems(1) have p: "cur = x"
    and tl: "is_tree t (left_of t x) (Some x) l" and tr: "is_tree t (right_of t x) (Some x) r"
    by auto
  from Node.prems(2) have sl: "sorted_wrt (<) (vals t l)" and sr: "sorted_wrt (<) (vals t r)"
    and lo: "\<forall>b\<in>set_tree l. val (nodes t b) < val (nodes t x)"
    and hi: "\<forall>b\<in>set_tree r. val (nodes t x) < val (nodes t b)"
    by (auto simp: vals_def sorted_wrt_append)
  from Node.prems(3) consider "a \<in> set_tree l" | "a = x" | "a \<in> set_tree r" by auto
  then show ?case
  proof cases
    case 1
    with lo Node.prems(4) have lt: "val (nodes t node) < val (nodes t x)" by auto
    from 1 tl obtain lc where lc: "left_of t x = Some lc"
      by (cases "left_of t x") (auto dest: is_tree_None)
    show ?thesis
      unfolding p using Node.IH(1)[OF tl[unfolded lc] sl 1 Node.prems(4)] lt lc
      by (subst insert_unique_loop.simps) simp
  next
    case 2
    with Node.prems(4) show ?thesis
      unfolding p by (subst insert_unique_loop.simps) simp
  next
    case 3
    with hi Node.prems(4) have lt: "val (nodes t x) < val (nodes t node)" by auto
    from 3 tr obtain rc where rc: "right_of t x = Some rc"
      by (cases "right_of t x") (auto dest: is_tree_None)
    show ?thesis
      unfolding p using Node.IH(2)[OF tr[unfolded rc] sr 3 Node.prems(4)] lt rc
      by (subst insert_unique_loop.simps) (simp add: less_not_sym)
  qed
qed

lemma sorted_filter_eq:
  "sorted_wrt (<) (map f xs) \<Longrightarrow> (a :: addr) \<in> set xs \<Longrightarrow>
   filter (\<lambda>x. (f x :: 'a :: linorder) = f a) xs = [a]"
proof (induction xs)
  case Nil
  then show ?case by simp
next
  case (Cons x xs)
  show ?case
  proof (cases "x = a")
    case True
    with Cons.prems have "\<forall>y\<in>set xs. f a < f y" by auto
    then have "filter (\<lambda>x. f x = f a) xs = []" by (auto simp: filter_empty_conv)
    with True show ?thesis by simp
  next
    case False
    with Cons.prems have "a \<in> set xs" "f x < f a" by auto
    with Cons show ?thesis by auto
  qed
qed

text \<open>Without a tie the descent reaches an empty slot and links the node there.\<close>

lemma insert_unique_loop_fresh:
  "is_ctx t C (Some cur) par \<Longrightarrow> is_tree t (Some cur) par S \<Longrightarrow>
   distinct (inorder (plug C S)) \<Longrightarrow> node \<notin> set_tree (plug C S) \<Longrightarrow>
   heights_ok t (plug C S) \<Longrightarrow> size (plug C S) + 1 < 2 ^ 31 \<Longrightarrow>
   sorted_wrt (<) (vals t (plug C S)) \<Longrightarrow>
   \<forall>x\<in>set (ctx_before C). val (nodes t x) < val (nodes t node) \<Longrightarrow>
   \<forall>y\<in>set (ctx_after C). val (nodes t node) < val (nodes t y) \<Longrightarrow>
   val (nodes t node) \<notin> set (vals t S) \<Longrightarrow>
   \<exists>t' xs ys. insert_unique_loop node cur t = Some (True, t') \<and>
      linked t (plug C S) node xs ys t' \<and>
      (\<forall>x\<in>set xs. val (nodes t x) < val (nodes t node)) \<and>
      (\<forall>y\<in>set ys. val (nodes t node) < val (nodes t y))"
proof (induction S arbitrary: C cur par)
  case Leaf
  then show ?case by simp
next
  case (Node l x r)
  let ?v = "val (nodes t node)"
  from Node.prems(2) have p: "cur = x"
    and tl: "is_tree t (left_of t x) (Some x) l" and tr: "is_tree t (right_of t x) (Some x) r"
    and px: "parent_of t x = par"
    by auto
  note c = Node.prems(1)[unfolded p]
  from Node.prems(7) have lo: "\<forall>b\<in>set_tree l. val (nodes t b) < val (nodes t x)"
    and hi: "\<forall>b\<in>set_tree r. val (nodes t x) < val (nodes t b)"
    by (auto simp: vals_def inorder_plug sorted_wrt_append)
  from Node.prems(10) have nx: "?v \<noteq> val (nodes t x)" and nl: "?v \<notin> set (vals t l)"
    and nr: "?v \<notin> set (vals t r)"
    by (auto simp: vals_def)
  show ?case
  proof (cases "?v < val (nodes t x)")
    case True
    show ?thesis
    proof (cases l)
      case Leaf
      with tl have l0: "left_of t x = None" by simp
      from link_left_correct[OF c Node.prems(2)[unfolded p Leaf] Node.prems(3)[unfolded Leaf]
          Node.prems(4)[unfolded Leaf] Node.prems(5)[unfolded Leaf] Node.prems(6)[unfolded Leaf]]
      obtain t' where "link_left node x t = Some t'"
        "linked t (plug C (Node Leaf x r)) node (ctx_before C) (x # inorder r @ ctx_after C) t'"
        by blast
      moreover have "\<forall>y\<in>set (x # inorder r @ ctx_after C). ?v < val (nodes t y)"
        using True hi Node.prems(9) by auto
      ultimately have "\<exists>t' xs ys. link_left node x t = Some t' \<and>
          linked t (plug C (Node Leaf x r)) node xs ys t' \<and>
          (\<forall>x\<in>set xs. val (nodes t x) < ?v) \<and> (\<forall>y\<in>set ys. ?v < val (nodes t y))"
        using Node.prems(8) by blast
      then show ?thesis
        unfolding p Leaf using True l0
        by (subst insert_unique_loop.simps) auto
    next
      case (Node ll lc lr)
      with tl have lc: "left_of t x = Some lc" by simp
      let ?C = "LeftOf x r # C"
      have c': "is_ctx t ?C (Some lc) (Some x)" using c lc tr px by simp
      have a': "\<forall>y\<in>set (ctx_after ?C). ?v < val (nodes t y)"
        using True hi Node.prems(9) by auto
      from Node.IH(1)[of ?C lc "Some x"] c' tl[unfolded lc] Node.prems(3-8) a' nl
      obtain t' xs ys where "insert_unique_loop node lc t = Some (True, t')"
        "linked t (plug C (Node l x r)) node xs ys t'"
        "\<forall>x\<in>set xs. val (nodes t x) < ?v" "\<forall>y\<in>set ys. ?v < val (nodes t y)"
        by auto
      then show ?thesis
        unfolding p using True lc by (subst insert_unique_loop.simps) auto
    qed
  next
    case False
    with nx have gt: "val (nodes t x) < ?v" by simp
    show ?thesis
    proof (cases r)
      case Leaf
      with tr have r0: "right_of t x = None" by simp
      from link_right_correct[OF c Node.prems(2)[unfolded p Leaf] Node.prems(3)[unfolded Leaf]
          Node.prems(4)[unfolded Leaf] Node.prems(5)[unfolded Leaf] Node.prems(6)[unfolded Leaf]]
      obtain t' where "link_right node x t = Some t'"
        "linked t (plug C (Node l x Leaf)) node (ctx_before C @ inorder l @ [x]) (ctx_after C) t'"
        by blast
      moreover have "\<forall>y\<in>set (ctx_before C @ inorder l @ [x]). val (nodes t y) < ?v"
        using gt lo Node.prems(8) by auto
      ultimately have "\<exists>t' xs ys. link_right node x t = Some t' \<and>
          linked t (plug C (Node l x Leaf)) node xs ys t' \<and>
          (\<forall>x\<in>set xs. val (nodes t x) < ?v) \<and> (\<forall>y\<in>set ys. ?v < val (nodes t y))"
        using Node.prems(9) by blast
      then show ?thesis
        unfolding p Leaf using False gt r0
        by (subst insert_unique_loop.simps) auto
    next
      case (Node rl rc rr)
      with tr have rc: "right_of t x = Some rc" by simp
      let ?C = "RightOf l x # C"
      have c': "is_ctx t ?C (Some rc) (Some x)" using c rc tl px by simp
      have b': "\<forall>y\<in>set (ctx_before ?C). val (nodes t y) < ?v"
        using gt lo Node.prems(8) by auto
      from Node.IH(2)[of ?C rc "Some x"] c' tr[unfolded rc] Node.prems(3-7) b' Node.prems(9) nr
      obtain t' xs ys where "insert_unique_loop node rc t = Some (True, t')"
        "linked t (plug C (Node l x r)) node xs ys t'"
        "\<forall>x\<in>set xs. val (nodes t x) < ?v" "\<forall>y\<in>set ys. ?v < val (nodes t y)"
        by auto
      then show ?thesis
        unfolding p using False gt rc by (subst insert_unique_loop.simps) auto
    qed
  qed
qed

lemma insert_unique_fresh:
  assumes w: "wf_tree t T" and so: "sorted_wrt (<) (vals t T)"
    and fr: "val (nodes t node) \<notin> set (vals t T)"
    and h: "heights_ok t T" and b: "size T + 1 < 2 ^ 31"
  shows "\<exists>t' xs ys. insert_unique node t = Some (True, t') \<and> linked t T node xs ys t' \<and>
           (\<forall>x\<in>set xs. val (nodes t x) < val (nodes t node)) \<and>
           (\<forall>y\<in>set ys. val (nodes t node) < val (nodes t y))"
proof (cases T)
  case Leaf
  with w have "root t = None" by (simp add: wf_tree_def)
  then have "insert_unique node t =
      Some (True, (link_as_root node t)\<lparr>mSize := mSize (link_as_root node t) + 1\<rparr>)"
    by (simp add: insert_unique_def Let_def)
  moreover have "linked t T node [] [] ((link_as_root node t)\<lparr>mSize := mSize (link_as_root node t) + 1\<rparr>)"
    using link_as_root_correct(1)[of t node] w Leaf by simp
  ultimately show ?thesis by force
next
  case (Node l x r)
  with w have r: "root t = Some x" and s: "is_tree t (Some x) None T" and d: "distinct (inorder T)"
    by (auto simp: wf_tree_def)
  have c: "is_ctx t [] (Some x) None" using r by simp
  from fr have n: "node \<notin> set_tree T" by (auto simp: vals_def)
  from insert_unique_loop_fresh[of t "[]" x None T node] c s d n h b so fr
  obtain t' xs ys where "insert_unique_loop node x t = Some (True, t')" "linked t T node xs ys t'"
    "\<forall>x\<in>set xs. val (nodes t x) < val (nodes t node)"
    "\<forall>y\<in>set ys. val (nodes t node) < val (nodes t y)"
    by auto
  then show ?thesis using r by (auto simp: insert_unique_def)
qed

lemma sorted_wrt_insert_between:
  fixes f :: "addr \<Rightarrow> 'a :: linorder"
  assumes "sorted_wrt (<) (map f (xs @ ys))" "\<forall>x\<in>set xs. f x < f a" "\<forall>y\<in>set ys. f a < f y"
  shows "sorted_wrt (<) (map f (xs @ a # ys))"
  using assms by (auto simp: sorted_wrt_append)

lemma sorted_insert_between:
  fixes f :: "addr \<Rightarrow> 'a :: linorder"
  assumes "sorted (map f (xs @ ys))" "\<forall>x\<in>set xs. f x \<le> f a" "\<forall>y\<in>set ys. f a \<le> f y"
  shows "sorted (map f (xs @ a # ys))"
  using assms by (auto simp: sorted_append)

text \<open>
  C6. In a tree in BST order, \<^verbatim>\<open>insert_unique\<close> of a node whose value is already stored
  returns false and leaves the whole state as it was, and exactly one linked node holds
  that value. For a value that is not stored, and a tree with correct stored heights and
  fewer than \<open>2^31 - 1\<close> nodes, it returns true, and the node is linked: it stands in the
  in-order sequence between smaller and greater values, the size is one more, \<^verbatim>\<open>find\<close> of its
  value returns it.
\<close>

theorem insert_unique_rejects_tie_links_fresh:
  assumes w: "wf_tree t T" and so: "sorted_wrt (<) (vals t T)"
  shows "(val (nodes t node) \<in> set (vals t T) \<longrightarrow>
            insert_unique node t = Some (False, t) \<and>
            length (filter (\<lambda>a. val (nodes t a) = val (nodes t node)) (inorder T)) = 1) \<and>
         (val (nodes t node) \<notin> set (vals t T) \<longrightarrow> heights_ok t T \<longrightarrow> size T + 1 < 2 ^ 31 \<longrightarrow>
            (\<exists>t' T' xs ys. insert_unique node t = Some (True, t') \<and> wf_tree t' T' \<and>
               inorder T = xs @ ys \<and> inorder T' = xs @ node # ys \<and>
               sorted_wrt (<) (vals t' T') \<and> heights_ok t' T' \<and>
               size_avl t' = size_avl t + 1 \<and>
               find_avl t' (val (nodes t node)) = Some (Some node)))"
proof (intro conjI impI)
  assume "val (nodes t node) \<in> set (vals t T)"
  then obtain a where a: "a \<in> set_tree T" "val (nodes t a) = val (nodes t node)"
    by (auto simp: vals_def)
  then have "T \<noteq> Leaf" by auto
  with w obtain c where c: "root t = Some c" "is_tree t (Some c) None T"
    using wf_tree_root by blast
  from insert_unique_loop_tie[OF c(2) so a] c(1)
  show "insert_unique node t = Some (False, t)"
    by (simp add: insert_unique_def)
  have "filter (\<lambda>x. val (nodes t x) = val (nodes t a)) (inorder T) = [a]"
    using so a(1) by (intro sorted_filter_eq) (auto simp: vals_def)
  then show "length (filter (\<lambda>a. val (nodes t a) = val (nodes t node)) (inorder T)) = 1"
    using a(2) by simp
next
  assume fr: "val (nodes t node) \<notin> set (vals t T)" and h: "heights_ok t T"
    and b: "size T + 1 < 2 ^ 31"
  from insert_unique_fresh[OF w so fr h b]
  obtain t' xs ys where i: "insert_unique node t = Some (True, t')" and l: "linked t T node xs ys t'"
    and lo: "\<forall>x\<in>set xs. val (nodes t x) < val (nodes t node)"
    and hi: "\<forall>y\<in>set ys. val (nodes t node) < val (nodes t y)"
    by blast
  from l obtain T' where T': "wf_tree t' T'" "inorder T = xs @ ys" "inorder T' = xs @ node # ys"
    "heights_ok t' T'" "mSize t' = mSize t + 1" "\<forall>b. val (nodes t' b) = val (nodes t b)"
    by (rule linkedD)
  have s': "sorted_wrt (<) (vals t' T')"
    using so lo hi T'(2,3,6) sorted_wrt_insert_between[of "\<lambda>a. val (nodes t a)" xs ys node]
    by (simp add: vals_def)
  have "node \<in> set_tree T'"
    using arg_cong[OF T'(3), of set] by simp
  then have "find_avl t' (val (nodes t' node)) = Some (Some node)"
    using T'(1) s' by (intro find_avl_member)
  then have f: "find_avl t' (val (nodes t node)) = Some (Some node)"
    using T'(6) by simp
  show "\<exists>t' T' xs ys. insert_unique node t = Some (True, t') \<and> wf_tree t' T' \<and>
               inorder T = xs @ ys \<and> inorder T' = xs @ node # ys \<and>
               sorted_wrt (<) (vals t' T') \<and> heights_ok t' T' \<and>
               size_avl t' = size_avl t + 1 \<and>
               find_avl t' (val (nodes t node)) = Some (Some node)"
    using i T' s' f by (auto simp: size_avl_def)
qed

theorem insert_unique_rejects_tie_links_fresh_witness:
  "\<exists>t. insert_all [2, 1, 3] (avl_tree_init (\<lambda>a. a mod 10)) = Some t \<and>
      wf_tree t \<langle>\<langle>\<langle>\<rangle>, 1, \<langle>\<rangle>\<rangle>, 2, \<langle>\<langle>\<rangle>, 3, \<langle>\<rangle>\<rangle>\<rangle> \<and> vals t \<langle>\<langle>\<langle>\<rangle>, 1, \<langle>\<rangle>\<rangle>, 2, \<langle>\<langle>\<rangle>, 3, \<langle>\<rangle>\<rangle>\<rangle> = [1, 2, 3] \<and>
      val (nodes t 11) = 1 \<and> insert_unique 11 t = Some (False, t) \<and>
      val (nodes t 4) = 4 \<and>
      (\<exists>t' T'. insert_unique 4 t = Some (True, t') \<and> wf_tree t' T' \<and>
         sorted_wrt (<) (vals t' T') \<and> heights_ok t' T' \<and> size_avl t' = size_avl t + 1 \<and>
         find_avl t' 4 = Some (Some 4))"
proof -
  let ?T = "\<langle>\<langle>\<langle>\<rangle>, 1, \<langle>\<rangle>\<rangle>, 2, \<langle>\<langle>\<rangle>, 3, \<langle>\<rangle>\<rangle>\<rangle> :: addr tree"
  have "case insert_all [2, 1, 3] (avl_tree_init (\<lambda>a. a mod 10)) of None \<Rightarrow> False
        | Some t \<Rightarrow> wf_tree t ?T \<and> vals t ?T = [1, 2, 3] \<and> heights_ok t ?T \<and>
            val (nodes t 11) = 1 \<and> val (nodes t 4) = 4"
    by code_simp
  then obtain t where t: "insert_all [2, 1, 3] (avl_tree_init (\<lambda>a. a mod 10)) = Some t"
      "wf_tree t ?T" "vals t ?T = [1, 2, 3]" "heights_ok t ?T"
      "val (nodes t 11) = 1" "val (nodes t 4) = 4"
    by (auto split: option.splits)
  have so: "sorted_wrt (<) (vals t ?T)" using t(3) by simp
  show ?thesis
    using insert_unique_rejects_tie_links_fresh[OF t(2) so, of 11]
      insert_unique_rejects_tie_links_fresh[OF t(2) so, of 4] t
    by (simp del: insert_all.simps) blast
qed

section \<open>\<^verbatim>\<open>insert_multi\<close>\<close>

lemma insert_multi_loop_links:
  "is_ctx t C (Some cur) par \<Longrightarrow> is_tree t (Some cur) par S \<Longrightarrow>
   distinct (inorder (plug C S)) \<Longrightarrow> node \<notin> set_tree (plug C S) \<Longrightarrow>
   heights_ok t (plug C S) \<Longrightarrow> size (plug C S) + 1 < 2 ^ 31 \<Longrightarrow>
   \<exists>t' xs ys. insert_multi_loop node cur t = Some t' \<and>
      linked t (plug C S) node xs ys t' \<and>
      (sorted (vals t (plug C S)) \<longrightarrow> between t (ctx_before C) node (ctx_after C) \<longrightarrow>
         between t xs node ys)"
proof (induction S arbitrary: C cur par)
  case Leaf
  then show ?case by simp
next
  case (Node l x r)
  let ?v = "val (nodes t node)"
  let ?T = "plug C (Node l x r)"
  from Node.prems(2) have p: "cur = x"
    and tl: "is_tree t (left_of t x) (Some x) l" and tr: "is_tree t (right_of t x) (Some x) r"
    and px: "parent_of t x = par"
    by auto
  note c = Node.prems(1)[unfolded p]
  have lo: "\<forall>b\<in>set_tree l. val (nodes t b) \<le> val (nodes t x)"
    and hi: "\<forall>b\<in>set_tree r. val (nodes t x) \<le> val (nodes t b)" if "sorted (vals t ?T)"
    using that by (auto simp: vals_def inorder_plug sorted_append)
  text \<open>The two ways of linking at \<open>x\<close>.\<close>
  have at_left: "\<exists>t' xs ys. link_left node x t = Some t' \<and> linked t ?T node xs ys t' \<and>
      (sorted (vals t ?T) \<longrightarrow> between t (ctx_before C) node (ctx_after C) \<longrightarrow> between t xs node ys)"
    if l: "l = Leaf" and v: "?v \<le> val (nodes t x)"
  proof -
    from link_left_correct[OF c Node.prems(2)[unfolded p l] Node.prems(3)[unfolded l]
        Node.prems(4)[unfolded l] Node.prems(5)[unfolded l] Node.prems(6)[unfolded l]]
    obtain t' where "link_left node x t = Some t'"
      "linked t (plug C (Node Leaf x r)) node (ctx_before C) (x # inorder r @ ctx_after C) t'"
      by blast
    moreover have "between t (ctx_before C) node (x # inorder r @ ctx_after C)"
      if "sorted (vals t ?T)" "between t (ctx_before C) node (ctx_after C)"
      using that v hi by (auto simp: between_def)
    ultimately show ?thesis unfolding l by blast
  qed
  have at_right: "\<exists>t' xs ys. link_right node x t = Some t' \<and> linked t ?T node xs ys t' \<and>
      (sorted (vals t ?T) \<longrightarrow> between t (ctx_before C) node (ctx_after C) \<longrightarrow> between t xs node ys)"
    if r: "r = Leaf" and v: "val (nodes t x) \<le> ?v"
  proof -
    from link_right_correct[OF c Node.prems(2)[unfolded p r] Node.prems(3)[unfolded r]
        Node.prems(4)[unfolded r] Node.prems(5)[unfolded r] Node.prems(6)[unfolded r]]
    obtain t' where "link_right node x t = Some t'"
      "linked t (plug C (Node l x Leaf)) node (ctx_before C @ inorder l @ [x]) (ctx_after C) t'"
      by blast
    moreover have "between t (ctx_before C @ inorder l @ [x]) node (ctx_after C)"
      if "sorted (vals t ?T)" "between t (ctx_before C) node (ctx_after C)"
      using that v lo by (auto simp: between_def)
    ultimately show ?thesis unfolding r by blast
  qed
  text \<open>The two ways of going down from \<open>x\<close>.\<close>
  have go_left: "\<exists>t' xs ys. insert_multi_loop node lc t = Some t' \<and> linked t ?T node xs ys t' \<and>
      (sorted (vals t ?T) \<longrightarrow> between t (ctx_before C) node (ctx_after C) \<longrightarrow> between t xs node ys)"
    if lc: "left_of t x = Some lc" and v: "?v \<le> val (nodes t x)" for lc
  proof -
    let ?C = "LeftOf x r # C"
    have c': "is_ctx t ?C (Some lc) (Some x)" using c lc tr px by simp
    from Node.IH(1)[of ?C lc "Some x"] c' tl[unfolded lc] Node.prems(3-6)
    obtain t' xs ys where i: "insert_multi_loop node lc t = Some t'" "linked t ?T node xs ys t'"
      "sorted (vals t ?T) \<longrightarrow> between t (ctx_before ?C) node (ctx_after ?C) \<longrightarrow> between t xs node ys"
      by auto
    have "between t (ctx_before ?C) node (ctx_after ?C)"
      if "sorted (vals t ?T)" "between t (ctx_before C) node (ctx_after C)"
      using that v hi by (auto simp: between_def)
    with i show ?thesis by blast
  qed
  have go_right: "\<exists>t' xs ys. insert_multi_loop node rc t = Some t' \<and> linked t ?T node xs ys t' \<and>
      (sorted (vals t ?T) \<longrightarrow> between t (ctx_before C) node (ctx_after C) \<longrightarrow> between t xs node ys)"
    if rc: "right_of t x = Some rc" and v: "val (nodes t x) \<le> ?v" for rc
  proof -
    let ?C = "RightOf l x # C"
    have c': "is_ctx t ?C (Some rc) (Some x)" using c rc tl px by simp
    from Node.IH(2)[of ?C rc "Some x"] c' tr[unfolded rc] Node.prems(3-6)
    obtain t' xs ys where i: "insert_multi_loop node rc t = Some t'" "linked t ?T node xs ys t'"
      "sorted (vals t ?T) \<longrightarrow> between t (ctx_before ?C) node (ctx_after ?C) \<longrightarrow> between t xs node ys"
      by auto
    have "between t (ctx_before ?C) node (ctx_after ?C)"
      if "sorted (vals t ?T)" "between t (ctx_before C) node (ctx_after C)"
      using that v lo by (auto simp: between_def)
    with i show ?thesis by blast
  qed
  have l0: "l = Leaf" if "left_of t x = None" using that tl by (auto dest: is_tree_None)
  have r0: "r = Leaf" if "right_of t x = None" using that tr by (auto dest: is_tree_None)
  consider (lt) "?v < val (nodes t x)" | (gt) "val (nodes t x) < ?v" | (eq) "?v = val (nodes t x)"
    by (metis less_linear)
  then show ?case
  proof cases
    case lt
    show ?thesis
    proof (cases "left_of t x")
      case None
      with at_left[OF l0[OF None]] lt show ?thesis
        unfolding p by (subst insert_multi_loop.simps) simp
    next
      case (Some lc)
      with go_left[OF Some] lt show ?thesis
        unfolding p by (subst insert_multi_loop.simps) simp
    qed
  next
    case gt
    then have ng: "\<not> ?v < val (nodes t x)" by simp
    show ?thesis
    proof (cases "right_of t x")
      case None
      with at_right[OF r0[OF None]] gt ng show ?thesis
        unfolding p by (subst insert_multi_loop.simps) simp
    next
      case (Some rc)
      with go_right[OF Some] gt ng show ?thesis
        unfolding p by (subst insert_multi_loop.simps) simp
    qed
  next
    case eq
    show ?thesis
    proof (cases "left_of t x")
      case None
      with at_left[OF l0[OF None]] eq show ?thesis
        unfolding p by (subst insert_multi_loop.simps) simp
    next
      case L: (Some lc)
      show ?thesis
      proof (cases "right_of t x")
        case None
        with at_right[OF r0[OF None]] eq L show ?thesis
          unfolding p by (subst insert_multi_loop.simps) simp
      next
        case R: (Some rc)
        show ?thesis
        proof (cases "height_of t lc < height_of t rc")
          case True
          with go_left[OF L] eq L R show ?thesis
            unfolding p by (subst insert_multi_loop.simps) simp
        next
          case False
          with go_right[OF R] eq L R show ?thesis
            unfolding p by (subst insert_multi_loop.simps) simp
        qed
      qed
    qed
  qed
qed

lemma insert_multi_links:
  assumes w: "wf_tree t T" and n: "node \<notin> set_tree T"
    and h: "heights_ok t T" and b: "size T + 1 < 2 ^ 31"
  shows "\<exists>t' xs ys. insert_multi node t = Some t' \<and> linked t T node xs ys t' \<and>
           (sorted (vals t T) \<longrightarrow> between t xs node ys)"
proof (cases T)
  case Leaf
  with w have "root t = None" by (simp add: wf_tree_def)
  then have "insert_multi node t =
      Some ((link_as_root node t)\<lparr>mSize := mSize (link_as_root node t) + 1\<rparr>)"
    by (simp add: insert_multi_def Let_def)
  moreover have "linked t T node [] [] ((link_as_root node t)\<lparr>mSize := mSize (link_as_root node t) + 1\<rparr>)"
    using link_as_root_correct(1)[of t node] w Leaf by simp
  moreover have "between t [] node []" by (simp add: between_def)
  ultimately show ?thesis by blast
next
  case (Node l x r)
  with w have r: "root t = Some x" and s: "is_tree t (Some x) None T" and d: "distinct (inorder T)"
    by (auto simp: wf_tree_def)
  have c: "is_ctx t [] (Some x) None" using r by simp
  from insert_multi_loop_links[of t "[]" x None T node] c s d n h b
  obtain t' xs ys where "insert_multi_loop node x t = Some t'" "linked t T node xs ys t'"
    "sorted (vals t T) \<longrightarrow> between t xs node ys"
    by (auto simp: between_def)
  then show ?thesis using r by (auto simp: insert_multi_def)
qed

lemma insert_multi_loop_tie:
  "val (nodes t node) = val (nodes t cur) \<Longrightarrow> left_of t cur = Some l \<Longrightarrow> right_of t cur = Some r \<Longrightarrow>
   insert_multi_loop node cur t =
     insert_multi_loop node (if height_of t l < height_of t r then l else r) t"
  by (subst insert_multi_loop.simps) simp

lemma insert_multi_example:
  "do { t \<leftarrow> insert_multi_all [0, 1, 2, 3, 4] (avl_tree_init five_values);
        Some (size_avl t, wf_tree t \<langle>\<langle>\<langle>\<rangle>, 1, \<langle>\<langle>\<rangle>, 4, \<langle>\<rangle>\<rangle>\<rangle>, 0, \<langle>\<langle>\<rangle>, 2, \<langle>\<langle>\<rangle>, 3, \<langle>\<rangle>\<rangle>\<rangle>\<rangle>,
              vals t \<langle>\<langle>\<langle>\<rangle>, 1, \<langle>\<langle>\<rangle>, 4, \<langle>\<rangle>\<rangle>\<rangle>, 0, \<langle>\<langle>\<rangle>, 2, \<langle>\<langle>\<rangle>, 3, \<langle>\<rangle>\<rangle>\<rangle>\<rangle>) }
   = Some (5, True, [3, 5, 5, 5, 8])"
  by code_simp

text \<open>
  C7. \<^verbatim>\<open>insert_multi\<close> of a node that is not yet linked, into a well-formed tree with
  correct stored heights and fewer than \<open>2^31 - 1\<close> nodes, always returns with the node
  linked: the in-order sequence gains the node, the size is one more, and a sorted sequence
  of values stays sorted. On a tie at a node with two children the descent goes on in the
  left child when its stored height is less than the right child's, and in the right child
  otherwise. The values 5, 3, 5, 8, 5 inserted into a fresh tree give size 5 and the
  in-order values 3, 5, 5, 5, 8.
\<close>

theorem insert_multi_always_links:
  assumes w: "wf_tree t T" and n: "node \<notin> set_tree T"
    and h: "heights_ok t T" and b: "size T + 1 < 2 ^ 31"
  shows "(\<exists>t' T' xs ys. insert_multi node t = Some t' \<and> wf_tree t' T' \<and>
            inorder T = xs @ ys \<and> inorder T' = xs @ node # ys \<and> heights_ok t' T' \<and>
            size_avl t' = size_avl t + 1 \<and> (sorted (vals t T) \<longrightarrow> sorted (vals t' T'))) \<and>
         (\<forall>cur l r. val (nodes t node) = val (nodes t cur) \<longrightarrow> left_of t cur = Some l \<longrightarrow>
            right_of t cur = Some r \<longrightarrow>
            insert_multi_loop node cur t =
              insert_multi_loop node (if height_of t l < height_of t r then l else r) t) \<and>
         do { t5 \<leftarrow> insert_multi_all [0, 1, 2, 3, 4] (avl_tree_init five_values);
              Some (size_avl t5, wf_tree t5 \<langle>\<langle>\<langle>\<rangle>, 1, \<langle>\<langle>\<rangle>, 4, \<langle>\<rangle>\<rangle>\<rangle>, 0, \<langle>\<langle>\<rangle>, 2, \<langle>\<langle>\<rangle>, 3, \<langle>\<rangle>\<rangle>\<rangle>\<rangle>,
                    vals t5 \<langle>\<langle>\<langle>\<rangle>, 1, \<langle>\<langle>\<rangle>, 4, \<langle>\<rangle>\<rangle>\<rangle>, 0, \<langle>\<langle>\<rangle>, 2, \<langle>\<langle>\<rangle>, 3, \<langle>\<rangle>\<rangle>\<rangle>\<rangle>) }
         = Some (5, True, [3, 5, 5, 5, 8])"
proof -
  from insert_multi_links[OF w n h b]
  obtain t' xs ys where i: "insert_multi node t = Some t'" and l: "linked t T node xs ys t'"
    and s: "sorted (vals t T) \<longrightarrow> between t xs node ys"
    by blast
  from l obtain T' where T': "wf_tree t' T'" "inorder T = xs @ ys" "inorder T' = xs @ node # ys"
    "heights_ok t' T'" "mSize t' = mSize t + 1" "\<forall>b. val (nodes t' b) = val (nodes t b)"
    by (rule linkedD)
  have "sorted (vals t' T')" if "sorted (vals t T)"
    using that s T'(2,3,6) sorted_insert_between[of "\<lambda>a. val (nodes t a)" xs ys node]
    by (simp add: vals_def between_def)
  with i T' have 1: "\<exists>t' T' xs ys. insert_multi node t = Some t' \<and> wf_tree t' T' \<and>
            inorder T = xs @ ys \<and> inorder T' = xs @ node # ys \<and> heights_ok t' T' \<and>
            size_avl t' = size_avl t + 1 \<and> (sorted (vals t T) \<longrightarrow> sorted (vals t' T'))"
    by (auto simp: size_avl_def)
  have 2: "\<forall>cur l r. val (nodes t node) = val (nodes t cur) \<longrightarrow> left_of t cur = Some l \<longrightarrow>
            right_of t cur = Some r \<longrightarrow>
            insert_multi_loop node cur t =
              insert_multi_loop node (if height_of t l < height_of t r then l else r) t"
    by (intro allI impI) (rule insert_multi_loop_tie)
  from 1 2 insert_multi_example show ?thesis by (intro conjI)
qed

theorem insert_multi_always_links_witness:
  "\<exists>t. insert_multi_all [0, 1, 2, 3] (avl_tree_init five_values) = Some t \<and>
      wf_tree t \<langle>\<langle>\<langle>\<rangle>, 1, \<langle>\<rangle>\<rangle>, 0, \<langle>\<langle>\<rangle>, 2, \<langle>\<langle>\<rangle>, 3, \<langle>\<rangle>\<rangle>\<rangle>\<rangle> \<and>
      vals t \<langle>\<langle>\<langle>\<rangle>, 1, \<langle>\<rangle>\<rangle>, 0, \<langle>\<langle>\<rangle>, 2, \<langle>\<langle>\<rangle>, 3, \<langle>\<rangle>\<rangle>\<rangle>\<rangle> = [3, 5, 5, 8] \<and>
      val (nodes t 4) = val (nodes t 0) \<and> left_of t 0 = Some 1 \<and> right_of t 0 = Some 2 \<and>
      height_of t 1 < height_of t 2 \<and>
      insert_multi_loop 4 0 t = insert_multi_loop 4 1 t \<and>
      (\<exists>t' T'. insert_multi 4 t = Some t' \<and> wf_tree t' T' \<and> sorted (vals t' T') \<and>
         size_avl t' = size_avl t + 1)"
proof -
  let ?T = "\<langle>\<langle>\<langle>\<rangle>, 1, \<langle>\<rangle>\<rangle>, 0, \<langle>\<langle>\<rangle>, 2, \<langle>\<langle>\<rangle>, 3, \<langle>\<rangle>\<rangle>\<rangle>\<rangle> :: addr tree"
  have "case insert_multi_all [0, 1, 2, 3] (avl_tree_init five_values) of None \<Rightarrow> False
        | Some t \<Rightarrow> wf_tree t ?T \<and> vals t ?T = [3, 5, 5, 8] \<and> heights_ok t ?T \<and>
            val (nodes t 4) = val (nodes t 0) \<and> left_of t 0 = Some 1 \<and> right_of t 0 = Some 2 \<and>
            height_of t 1 < height_of t 2"
    by code_simp
  then obtain t where t: "insert_multi_all [0, 1, 2, 3] (avl_tree_init five_values) = Some t"
      "wf_tree t ?T" "vals t ?T = [3, 5, 5, 8]" "heights_ok t ?T"
      "val (nodes t 4) = val (nodes t 0)" "left_of t 0 = Some 1" "right_of t 0 = Some 2"
      "height_of t 1 < height_of t 2"
    by (auto split: option.splits)
  have n: "4 \<notin> set_tree ?T" and b: "size ?T + 1 < 2 ^ 31" by simp_all
  have so: "sorted (vals t ?T)" using t(3) by simp
  from insert_multi_always_links[OF t(2) n t(4) b] t so
  show ?thesis
    by (simp del: insert_multi_all.simps) blast
qed

section \<open>\<^verbatim>\<open>erase\<close> of a node with two children\<close>

lemma plug_append: "plug (D @ C) S = plug C (plug D S)"
  by (induction D S rule: plug.induct) auto

lemma ctx_before_append: "ctx_before (D @ C) = ctx_before C @ ctx_before D"
  by (induction D rule: ctx_addrs.induct) auto

lemma ctx_after_append: "ctx_after (D @ C) = ctx_after D @ ctx_after C"
  by (induction D rule: ctx_addrs.induct) auto

lemma ctx_addrs_append: "ctx_addrs (D @ C) = ctx_addrs D \<union> ctx_addrs C"
  by (induction D rule: ctx_addrs.induct) auto

lemma is_tree_plug_ex:
  "is_tree t (root t) None (plug C S) \<Longrightarrow> \<exists>p par. is_ctx t C p par \<and> is_tree t p par S"
proof (induction C S rule: plug.induct)
  case (1 S)
  then show ?case by auto
next
  case (2 a sib C S)
  then obtain p par where "is_ctx t C p par" "is_tree t p par (Node S a sib)" by auto
  then have "is_ctx t (LeftOf a sib # C) (left_of t a) (Some a)"
    "is_tree t (left_of t a) (Some a) S"
    by auto
  then show ?case by blast
next
  case (3 sib a C S)
  then obtain p par where "is_ctx t C p par" "is_tree t p par (Node sib a S)" by auto
  then have "is_ctx t (RightOf sib a # C) (right_of t a) (Some a)"
    "is_tree t (right_of t a) (Some a) S"
    by auto
  then show ?case by blast
qed

lemma is_tree_plug_node:
  assumes "is_tree t (root t) None (plug C (Node l a r))"
  shows "is_ctx t C (Some a) (parent_of t a) \<and> is_tree t (Some a) (parent_of t a) (Node l a r)"
proof -
  from is_tree_plug_ex[OF assms] obtain p par where
    "is_ctx t C p par" "is_tree t p par (Node l a r)" by blast
  moreover from this have "p = Some a" "par = parent_of t a" by auto
  ultimately show ?thesis by simp
qed

lemma left_spine_append: "left_spine (D @ E) = (left_spine D \<and> left_spine E)"
  by (induction D rule: left_spine.induct) auto

lemma leftmost_ctx:
  "is_ctx t C (Some y) par \<Longrightarrow> is_tree t (Some y) par S \<Longrightarrow>
   \<exists>D s srr ps. leftmost t y = Some s \<and> left_spine D \<and> plug D (Node Leaf s srr) = S \<and>
      is_ctx t (D @ C) (Some s) ps \<and> is_tree t (Some s) ps (Node Leaf s srr) \<and>
      (D = [] \<longrightarrow> s = y \<and> ps = par)"
proof (induction S arbitrary: C y par)
  case Leaf
  then show ?case by simp
next
  case (Node sl x sr)
  from Node.prems have x: "y = x" and px: "parent_of t x = par"
    and tl: "is_tree t (left_of t x) (Some x) sl" and tr: "is_tree t (right_of t x) (Some x) sr"
    by auto
  show ?case
  proof (cases sl)
    case Leaf
    with tl have "left_of t x = None" by simp
    then have "leftmost t x = Some x" by (rule leftmost_None)
    then show ?thesis
      using Node.prems Leaf x
      by (intro exI[of _ "[]"] exI[of _ x] exI[of _ sr] exI[of _ par]) simp
  next
    case N: (Node sll z slr)
    with tl have lz: "left_of t x = Some z" by simp
    let ?C = "LeftOf x sr # C"
    have c': "is_ctx t ?C (Some z) (Some x)"
      using Node.prems(1) x lz tr px by simp
    from Node.IH(1)[OF c' tl[unfolded lz]]
    obtain D s srr ps where i: "leftmost t z = Some s" "left_spine D"
      "plug D (Node Leaf s srr) = sl" "is_ctx t (D @ ?C) (Some s) ps"
      "is_tree t (Some s) ps (Node Leaf s srr)"
      by blast
    have "leftmost t x = Some s" using lz i(1) by (simp add: leftmost_Some)
    moreover have "left_spine (D @ [LeftOf x sr])" using i(2) by (simp add: left_spine_append)
    moreover have "plug (D @ [LeftOf x sr]) (Node Leaf s srr) = Node sl x sr"
      using i(3) by (simp add: plug_append)
    moreover have "is_ctx t ((D @ [LeftOf x sr]) @ C) (Some s) ps" using i(4) by simp
    ultimately show ?thesis
      unfolding x using i(5) by (intro exI[of _ "D @ [LeftOf x sr]"] exI[of _ s] exI[of _ srr] exI[of _ ps]) simp
  qed
qed

lemma leftmost_hd:
  "left_spine D \<Longrightarrow> inorder (plug D (Node Leaf s srr)) = s # inorder srr @ ctx_after D"
  by (induction D rule: left_spine.induct) (auto simp: inorder_plug)

lemma left_spine_before: "left_spine D \<Longrightarrow> ctx_before D = []"
  by (induction D rule: left_spine.induct) auto

lemma splice_out_correct:
  assumes cs: "is_ctx t Cs (Some s) ps"
    and ts: "is_tree t (Some s) ps (Node Leaf s srr)"
    and d: "distinct (inorder (plug Cs (Node Leaf s srr)))"
  shows "is_ctx (splice_out s t) Cs (right_of t s) ps \<and>
         is_tree (splice_out s t) (right_of t s) ps srr \<and>
         (\<forall>b. height_of (splice_out s t) b = height_of t b) \<and>
         parent_of (splice_out s t) s = ps \<and>
         same_except (set_tree (plug Cs (Node Leaf s srr))) t (splice_out s t)"
proof -
  let ?child = "right_of t s"
  let ?t1 = "case ?child of Some c \<Rightarrow> set_parent c ps t | None \<Rightarrow> t"
  let ?t2 = "replace_as_child s ?child ps ?t1"
  from ts have p: "parent_of t s = ps" and tr: "is_tree t ?child (Some s) srr" by auto
  then have e: "splice_out s t = ?t2" by (simp add: splice_out_def Let_def)
  from d have dS: "distinct (inorder srr)" "s \<notin> set_tree srr"
    and dC: "distinct (ctx_before Cs @ ctx_after Cs)"
    and dCS: "ctx_addrs Cs \<inter> insert s (set_tree srr) = {}"
    by (auto simp: inorder_plug set_ctx_addrs)
  have child_mem: "\<And>c. ?child = Some c \<Longrightarrow> c \<in> set_tree srr"
    using tr by (auto dest: is_tree_root_mem)
  have parC: "\<And>q. ps = Some q \<Longrightarrow> q \<in> ctx_addrs Cs"
    using cs by (auto dest: is_ctx_parent_mem)
  have c1: "is_ctx ?t1 Cs (Some s) ps"
    using cs dCS child_mem by (subst is_ctx_cong[of Cs _ t]) auto
  have c2: "is_ctx ?t2 Cs ?child ps"
    using c1 dC dCS by (intro ctx_replace) auto
  have s2: "is_tree ?t2 ?child ps srr"
    using dS dCS parC child_mem by (intro is_tree_reparent[OF tr]) auto
  have h2: "\<forall>b. height_of ?t2 b = height_of t b" by simp
  have p2: "parent_of ?t2 s = ps"
    using p dS child_mem by auto
  have "nodes ?t2 b = nodes t b" if "b \<notin> set_tree (plug Cs (Node Leaf s srr))" for b
  proof -
    from that have "ps \<noteq> Some b" "?child \<noteq> Some b"
      using parC child_mem by (auto simp: set_tree_plug)
    then show ?thesis by (simp add: replace_as_child_nodes set_parent_opt_nodes)
  qed
  then have se: "same_except (set_tree (plug Cs (Node Leaf s srr))) t ?t2"
    unfolding same_except_def by simp
  from c2 s2 h2 p2 se show ?thesis unfolding e by blast
qed

lemma take_place_correct:
  assumes c: "is_ctx t C (Some a) pa"
    and ta: "is_tree t (Some a) pa (Node l a r)"
    and l: "l \<noteq> Leaf"
    and d: "distinct (inorder (plug C (Node l a r)))"
    and n: "s \<notin> set_tree (plug C (Node l a r))"
  shows "\<exists>t9. take_place s a t = Some t9 \<and> is_ctx t9 C (Some s) pa \<and>
           is_tree t9 (Some s) pa (Node l s r) \<and>
           height_of t9 s = height_of t a \<and> (\<forall>b. b \<noteq> s \<longrightarrow> height_of t9 b = height_of t b) \<and>
           left_of t9 s = left_of t a \<and> right_of t9 s = right_of t a \<and>
           parent_of t9 s = parent_of t a \<and>
           same_except (insert s (set_tree (plug C (Node l a r)))) t t9"
proof -
  let ?t3 = "set_left s (left_of t a) t"
  let ?t4 = "set_right s (right_of ?t3 a) ?t3"
  let ?t5 = "set_parent s (parent_of ?t4 a) ?t4"
  let ?t6 = "set_height s (height_of ?t5 a) ?t5"
  let ?t7 = "replace_as_child a (Some s) (parent_of ?t6 a) ?t6"
  from l obtain ll lx lr where L: "l = Node ll lx lr" by (cases l) auto
  from ta L have f: "parent_of t a = pa" "left_of t a = Some lx"
    and tl: "is_tree t (Some lx) (Some a) l" and tr: "is_tree t (right_of t a) (Some a) r"
    by auto
  let ?t8 = "set_parent lx (Some s) ?t7"
  let ?t9 = "case right_of ?t8 a of Some x \<Rightarrow> set_parent x (Some s) ?t8 | None \<Rightarrow> ?t8"
  from d n have dS: "distinct (inorder l)" "distinct (inorder r)" "a \<notin> set_tree l" "a \<notin> set_tree r"
    "set_tree l \<inter> set_tree r = {}" "s \<noteq> a" "s \<notin> set_tree l" "s \<notin> set_tree r"
    and dC: "distinct (ctx_before C @ ctx_after C)"
    and dCS: "ctx_addrs C \<inter> (insert a (set_tree l \<union> set_tree r)) = {}" "s \<notin> ctx_addrs C"
    by (auto simp: inorder_plug set_ctx_addrs set_tree_plug)
  have lx: "lx \<in> set_tree l" using L by simp
  have r_root: "\<And>x. right_of t a = Some x \<Longrightarrow> x \<in> set_tree r"
    using tr by (auto dest: is_tree_root_mem)
  have parC: "\<And>q. pa = Some q \<Longrightarrow> q \<in> ctx_addrs C"
    using c by (auto dest: is_ctx_parent_mem)
  have pa_ne: "pa \<noteq> Some a" "pa \<noteq> Some s" "pa \<noteq> Some lx"
    using parC dCS dS lx by auto
  have l7: "left_of ?t7 a = Some lx"
    using f dS pa_ne by simp
  have r8: "right_of ?t8 a = right_of t a"
    using f dS pa_ne by simp
  have e: "take_place s a t = Some ?t9"
    by (simp only: take_place_def Let_def l7 option.simps)
  have c6: "is_ctx ?t6 C (Some a) pa"
    using c dCS by (subst is_ctx_cong[of C _ t]) auto
  have c7: "is_ctx ?t7 C (Some s) pa"
    using c6 dC dCS f dS by (simp add: ctx_replace)
  have c9: "is_ctx ?t9 C (Some s) pa"
    using c7 dCS lx r_root unfolding r8
    by (subst is_ctx_cong[of C _ ?t7]) auto
  have acc: "parent_of ?t9 s = pa" "left_of ?t9 s = Some lx" "right_of ?t9 s = right_of t a"
    "height_of ?t9 s = height_of t a"
    unfolding r8 using f dS pa_ne lx r_root by auto
  have l9: "is_tree ?t9 (Some lx) (Some s) l"
    unfolding r8 using dS dCS parC lx r_root f(1)
    by (intro is_tree_reparent[OF tl]) auto
  have r9: "is_tree ?t9 (right_of t a) (Some s) r"
    unfolding r8 using dS dCS parC lx r_root f(1)
    by (intro is_tree_reparent[OF tr]) auto
  have s9: "is_tree ?t9 (Some s) pa (Node l s r)"
    using acc l9 r9 by simp
  have h9: "\<forall>b. b \<noteq> s \<longrightarrow> height_of ?t9 b = height_of t b"
    unfolding r8 by simp
  have "nodes ?t9 b = nodes t b" if "b \<notin> insert s (set_tree (plug C (Node l a r)))" for b
  proof -
    from that have "pa \<noteq> Some b" "right_of t a \<noteq> Some b" "b \<noteq> s" "b \<noteq> lx"
      using parC r_root lx by (auto simp: set_tree_plug)
    then show ?thesis
      unfolding r8 using f
      by (simp add: replace_as_child_nodes set_parent_opt_nodes nodes_set_other)
  qed
  then have se: "same_except (insert s (set_tree (plug C (Node l a r)))) t ?t9"
    unfolding same_except_def r8 by simp
  from e c9 s9 acc h9 se f show ?thesis by simp
qed

lemma is_tree_root_ptr: "is_tree t p par T \<Longrightarrow> p = root_ptr T"
  by (cases T) auto

lemma root_ptr_plug: "D \<noteq> [] \<Longrightarrow> root_ptr (plug D S) = root_ptr (plug D S')"
proof (induction D arbitrary: S S')
  case Nil
  then show ?case by simp
next
  case (Cons f D)
  show ?case
  proof (cases D)
    case Nil
    then show ?thesis by (cases f) auto
  next
    case (Cons g D')
    then show ?thesis using Cons.IH by (cases f) auto
  qed
qed

lemma tree_decompose: "a \<in> set_tree T \<Longrightarrow> \<exists>C l r. T = plug C (Node l a r)"
proof (induction T)
  case Leaf
  then show ?case by simp
next
  case (Node tl x tr)
  from Node.prems consider "a = x" | "a \<in> set_tree tl" | "a \<in> set_tree tr" by auto
  then show ?case
  proof cases
    case 1
    then have "Node tl x tr = plug [] (Node tl a tr)" by simp
    then show ?thesis by blast
  next
    case 2
    with Node.IH(1) obtain C l r where "tl = plug C (Node l a r)" by blast
    then have "Node tl x tr = plug (C @ [LeftOf x tr]) (Node l a r)" by (simp add: plug_append)
    then show ?thesis by blast
  next
    case 3
    with Node.IH(2) obtain C l r where "tr = plug C (Node l a r)" by blast
    then have "Node tl x tr = plug (C @ [RightOf tl x]) (Node l a r)" by (simp add: plug_append)
    then show ?thesis by blast
  qed
qed

lemma ctx_heights_rename:
  assumes "\<And>b. b \<in> ctx_addrs D \<union> set_tree l \<union> ctx_addrs C \<Longrightarrow> height_of t' b = height_of t b"
    and "height_of t' s = height_of t a"
  shows "ctx_heights t' (D @ RightOf l s # C) h = ctx_heights t (D @ RightOf l a # C) h"
  using assms(1)
proof (induction D arbitrary: h)
  case Nil
  have "heights_ok t' l = heights_ok t l"
    using Nil by (intro heights_ok_cong) auto
  moreover have "ctx_heights t' C (height_of t a) = ctx_heights t C (height_of t a)"
    using Nil by (intro ctx_heights_cong) auto
  ultimately show ?case using assms(2) by simp
next
  case (Cons f D)
  show ?case
  proof (cases f)
    case (LeftOf x sib)
    have "heights_ok t' sib = heights_ok t sib"
      using Cons.prems LeftOf by (intro heights_ok_cong) auto
    moreover have "height_of t' x = height_of t x" using Cons.prems LeftOf by auto
    moreover have "ctx_heights t' (D @ RightOf l s # C) (height_of t x)
        = ctx_heights t (D @ RightOf l a # C) (height_of t x)"
      using Cons.prems LeftOf by (intro Cons.IH) auto
    ultimately show ?thesis using LeftOf by simp
  next
    case (RightOf sib x)
    have "heights_ok t' sib = heights_ok t sib"
      using Cons.prems RightOf by (intro heights_ok_cong) auto
    moreover have "height_of t' x = height_of t x" using Cons.prems RightOf by auto
    moreover have "ctx_heights t' (D @ RightOf l s # C) (height_of t x)
        = ctx_heights t (D @ RightOf l a # C) (height_of t x)"
      using Cons.prems RightOf by (intro Cons.IH) auto
    ultimately show ?thesis using RightOf by simp
  qed
qed

text \<open>
  The relinking of a node \<open>a\<close> with two children: \<open>s\<close>, the left-most node below the right
  child, is at the end of a chain \<open>D\<close> of left links; afterwards \<open>s\<close> stands where \<open>a\<close> stood
  and the right subtree \<open>srr\<close> of \<open>s\<close> where \<open>s\<close> stood.
\<close>

lemma erase_unlink_two_children:
  assumes c: "is_ctx t C (Some a) pa"
    and ta: "is_tree t (Some a) pa (Node l a r)"
    and l: "l \<noteq> Leaf" and r: "r \<noteq> Leaf"
    and d: "distinct (inorder (plug C (Node l a r)))"
  shows "\<exists>D s srr t1.
      left_spine D \<and> r = plug D (Node Leaf s srr) \<and>
      (\<forall>y. right_of t a = Some y \<longrightarrow> leftmost t y = Some s) \<and>
      parent_of t s = (case D of [] \<Rightarrow> Some a | LeftOf p sib # D' \<Rightarrow> Some p | _ \<Rightarrow> None) \<and>
      is_tree t (Some s) (parent_of t s) (Node Leaf s srr) \<and>
      is_ctx (splice_out s t) (D @ RightOf l a # C) (right_of t s) (parent_of t s) \<and>
      is_tree (splice_out s t) (right_of t s) (parent_of t s) srr \<and>
      take_place s a (splice_out s t) = Some t1 \<and>
      right_of t1 s = right_of (splice_out s t) a \<and>
      erase_unlink a t = Some (if parent_of t s = Some a then Some s else parent_of t s, t1) \<and>
      is_tree t1 (root t1) None (plug C (Node l s (plug D srr))) \<and>
      parent_of t1 s = parent_of t a \<and> left_of t1 s = left_of t a \<and>
      height_of t1 s = height_of t a \<and>
      (\<forall>b. b \<noteq> s \<longrightarrow> height_of t1 b = height_of t b) \<and>
      same_except (set_tree (plug C (Node l a r))) t t1"
proof -
  let ?T = "plug C (Node l a r)"
  from r obtain rl y rr where R: "r = Node rl y rr" by (cases r) auto
  from ta R have f: "parent_of t a = pa" "right_of t a = Some y"
    and tl: "is_tree t (left_of t a) (Some a) l" and ty: "is_tree t (Some y) (Some a) r"
    by auto
  from tl l have la: "left_of t a \<noteq> None" by (cases l) auto
  let ?C1 = "RightOf l a # C"
  have c1: "is_ctx t ?C1 (Some y) (Some a)" using c f tl by simp
  from leftmost_ctx[OF c1 ty] obtain D s srr ps where
    lm: "leftmost t y = Some s" and sp: "left_spine D" and pl: "plug D (Node Leaf s srr) = r"
    and cs: "is_ctx t (D @ ?C1) (Some s) ps" and ts: "is_tree t (Some s) ps (Node Leaf s srr)"
    and D0: "D = [] \<longrightarrow> s = y \<and> ps = Some a"
    by blast
  let ?Cs = "D @ ?C1"
  let ?r' = "plug D srr"
  have plT: "plug ?Cs (Node Leaf s srr) = ?T" using pl by (simp add: plug_append)
  have d': "distinct (inorder (plug ?Cs (Node Leaf s srr)))" using d plT by simp
  from ts have ps: "parent_of t s = ps" by simp
  have sr: "s \<in> set_tree r" using pl[symmetric] by (simp add: set_tree_plug)
  have ar: "a \<notin> set_tree r" "a \<notin> set_tree l" "set_tree l \<inter> set_tree r = {}"
    using d by (auto simp: inorder_plug)
  have psD: "ps = (case D of [] \<Rightarrow> Some a | LeftOf p sib # D' \<Rightarrow> Some p | _ \<Rightarrow> None)"
  proof (cases D rule: left_spine.cases)
    case 1
    with D0 show ?thesis by simp
  next
    case (2 p sib D')
    with cs show ?thesis by simp
  next
    case (3 sib p D')
    with sp show ?thesis by simp
  qed
  have ps_a: "ps = Some a \<longleftrightarrow> D = []"
  proof (cases D rule: left_spine.cases)
    case 1
    with D0 show ?thesis by simp
  next
    case (2 p sib D')
    then have "p \<in> set_tree r" using pl[symmetric] by (simp add: set_tree_plug ctx_addrs_append)
    with ar cs 2 show ?thesis by auto
  next
    case (3 sib p D')
    with sp show ?thesis by simp
  qed
  let ?t2 = "splice_out s t"
  from splice_out_correct[OF cs ts d'] have
    c2: "is_ctx ?t2 ?Cs (right_of t s) ps" and s2: "is_tree ?t2 (right_of t s) ps srr"
    and h2: "\<forall>b. height_of ?t2 b = height_of t b" and p2: "parent_of ?t2 s = ps"
    and e2: "same_except (set_tree ?T) t ?t2"
    unfolding plT by blast+
  have T2: "plug ?Cs srr = plug C (Node l a ?r')" by (simp add: plug_append)
  from is_ctx_plug[OF c2 s2] have w2: "is_tree ?t2 (root ?t2) None (plug C (Node l a ?r'))"
    unfolding T2 .
  from is_tree_plug_node[OF w2] have ca2: "is_ctx ?t2 C (Some a) (parent_of ?t2 a)"
    and ta2: "is_tree ?t2 (Some a) (parent_of ?t2 a) (Node l a ?r')"
    by auto
  have io: "inorder ?T = ctx_before C @ inorder l @ a # s # inorder srr @ ctx_after D @ ctx_after C"
    using pl[symmetric] sp by (simp add: inorder_plug left_spine_before)
  have io2: "inorder (plug C (Node l a ?r')) = ctx_before C @ inorder l @ a # inorder srr @ ctx_after D @ ctx_after C"
    using sp by (simp add: inorder_plug left_spine_before)
  have d2: "distinct (inorder (plug C (Node l a ?r')))" using d unfolding io io2 by auto
  have n2: "s \<notin> set_tree (plug C (Node l a ?r'))"
    using d arg_cong[OF io2, of set] unfolding io by auto
  from take_place_correct[OF ca2 ta2 l d2 n2] obtain t9 where
    tp: "take_place s a ?t2 = Some t9" and c9: "is_ctx t9 C (Some s) (parent_of ?t2 a)"
    and s9: "is_tree t9 (Some s) (parent_of ?t2 a) (Node l s ?r')"
    and hs9: "height_of t9 s = height_of ?t2 a"
    and h9: "\<forall>b. b \<noteq> s \<longrightarrow> height_of t9 b = height_of ?t2 b"
    and l9: "left_of t9 s = left_of ?t2 a" and p9: "parent_of t9 s = parent_of ?t2 a"
    and r9: "right_of t9 s = right_of ?t2 a"
    and e9: "same_except (insert s (set_tree (plug C (Node l a ?r')))) ?t2 t9"
    by blast
  have st: "insert s (set_tree (plug C (Node l a ?r'))) = set_tree ?T"
    using arg_cong[OF io, of set] arg_cong[OF io2, of set] by auto
  text \<open>What \<^verbatim>\<open>splice_out\<close> left of the fields of \<open>a\<close>.\<close>
  from ca2 c have pa2: "parent_of ?t2 a = pa" by (metis is_ctx_parent_unique)
  from ta2 tl have la2: "left_of ?t2 a = left_of t a"
    by (auto dest!: is_tree_root_ptr)
  have eu: "erase_unlink a t = Some (if ps = Some a then Some s else ps, t9)"
    using la f lm ps p2 tp by (simp add: erase_unlink_def)
  have w9: "is_tree t9 (root t9) None (plug C (Node l s ?r'))"
    using c9 s9 by (rule is_ctx_plug)
  have "same_except (set_tree ?T) t t9"
    using e2 e9 unfolding st by (rule same_except_trans)
  with eu w9 sp pl lm f psD ps ts hs9 h9 h2 l9 p9 pa2 la2 c2 s2 tp r9 show ?thesis
    by (intro exI[of _ D] exI[of _ s] exI[of _ srr] exI[of _ t9]) simp
qed

lemma erase_rebalance:
  assumes sp: "left_spine D"
    and w1: "is_tree t1 (root t1) None (plug C (Node l s (plug D srr)))"
    and d1: "distinct (inorder (plug C (Node l a (plug D (Node Leaf s srr)))))"
    and hs: "height_of t1 s = height_of t a"
    and ho: "\<forall>b. b \<noteq> s \<longrightarrow> height_of t1 b = height_of t b"
    and h: "heights_ok t (plug C (Node l a (plug D (Node Leaf s srr))))"
    and b: "size (plug C (Node l a (plug D (Node Leaf s srr)))) < 2 ^ 31"
  shows "\<exists>n0 t' T'. (case D of [] \<Rightarrow> Some s | LeftOf p sib # D' \<Rightarrow> Some p | _ \<Rightarrow> None) = Some n0 \<and>
           rebalance_loop (Some n0) t1 = Some t' \<and> wf_tree t' T' \<and>
           inorder T' = inorder (plug C (Node l s (plug D srr))) \<and> heights_ok t' T' \<and>
           same_except (set_tree (plug C (Node l s (plug D srr)))) t1 t'"
proof -
  let ?T = "plug C (Node l a (plug D (Node Leaf s srr)))"
  let ?T1 = "plug C (Node l s (plug D srr))"
  have io: "inorder ?T = ctx_before C @ inorder l @ a # s # inorder srr @ ctx_after D @ ctx_after C"
    using sp by (simp add: inorder_plug left_spine_before)
  have io1: "inorder ?T1 = ctx_before C @ inorder l @ s # inorder srr @ ctx_after D @ ctx_after C"
    using sp by (simp add: inorder_plug left_spine_before)
  have dT1: "distinct (inorder ?T1)" using d1 unfolding io io1 by auto
  have "length (inorder ?T1) < length (inorder ?T)" unfolding io io1 by simp
  then have "size ?T1 < size ?T" by (simp only: length_inorder)
  with b have b1: "size ?T1 < 2 ^ 31" by simp
  have sn: "s \<notin> set_tree l" "s \<notin> set_tree srr" "s \<notin> ctx_addrs C" "s \<notin> set (ctx_after D)"
    using d1 unfolding io by (auto simp: set_ctx_addrs)
  show ?thesis
  proof (cases D rule: left_spine.cases)
    case 1
    from is_tree_plug_node[OF w1[unfolded 1, simplified]]
    have c: "is_ctx t1 C (Some s) (parent_of t1 s)"
      and ts: "is_tree t1 (Some s) (parent_of t1 s) (Node l s srr)"
      by auto
    from h 1 have hl: "heights_ok t l" and hr: "heights_ok t srr"
      and ha: "height_of t a = height (Node l a (Node Leaf s srr))"
      and ch: "ctx_heights t C (height (Node l a (Node Leaf s srr)))"
      by (auto simp: heights_ok_plug)
    have "heights_ok t1 l = heights_ok t l" "heights_ok t1 srr = heights_ok t srr"
      using ho sn by (auto intro!: heights_ok_cong)
    with hl hr have h1: "heights_ok t1 l" "heights_ok t1 srr" by auto
    have "ctx_heights t1 C (height_of t1 s) = ctx_heights t C (height_of t1 s)"
      using ho sn by (intro ctx_heights_cong) auto
    with ch ha hs have ch1: "ctx_heights t1 C (height_of t1 s)" by simp
    from rebalance_loop_correct[OF c ts _ h1 ch1] dT1 b1 1
    show ?thesis by simp
  next
    case (2 p sib D')
    let ?C0 = "D' @ RightOf l s # C"
    have pl1: "?T1 = plug ?C0 (Node srr p sib)" using 2 by (simp add: plug_append)
    have pl: "?T = plug (D' @ RightOf l a # C) (Node (Node Leaf s srr) p sib)"
      using 2 by (simp add: plug_append)
    from is_tree_plug_node[OF w1[unfolded pl1]]
    have c: "is_ctx t1 ?C0 (Some p) (parent_of t1 p)"
      and tp: "is_tree t1 (Some p) (parent_of t1 p) (Node srr p sib)"
      by auto
    from h[unfolded pl] have hr: "heights_ok t srr" and hsib: "heights_ok t sib"
      and hp: "height_of t p = height (Node (Node Leaf s srr) p sib)"
      and ch: "ctx_heights t (D' @ RightOf l a # C) (height (Node (Node Leaf s srr) p sib))"
      by (auto simp: heights_ok_plug)
    have mem: "p \<in> set (ctx_after D)" "set_tree sib \<subseteq> set (ctx_after D)"
      "ctx_addrs D' \<subseteq> set (ctx_after D)"
      using 2 sp by (auto simp: set_ctx_addrs left_spine_before)
    have "heights_ok t1 srr = heights_ok t srr" "heights_ok t1 sib = heights_ok t sib"
      using ho sn mem by (auto intro!: heights_ok_cong)
    with hr hsib have h1: "heights_ok t1 srr" "heights_ok t1 sib" by auto
    have php: "height_of t1 p = height_of t p" using ho sn mem by auto
    have "ctx_heights t1 ?C0 (height_of t1 p) = ctx_heights t (D' @ RightOf l a # C) (height_of t1 p)"
      using ho sn mem hs by (intro ctx_heights_rename) auto
    with ch hp php have ch1: "ctx_heights t1 ?C0 (height_of t1 p)" by simp
    from rebalance_loop_correct[OF c tp _ h1 ch1] dT1 b1 2
    show ?thesis unfolding pl1[symmetric] by simp
  next
    case (3 sib p D')
    with sp show ?thesis by simp
  qed
qed

text \<open>
  C5. Let \<open>a\<close> be a linked node with two children in a tree in BST order with correct
  stored heights and fewer than \<open>2^31\<close> nodes. Its in-order successor \<open>s\<close> is the left-most
  node below its right child and has no left child. The relinking of \<^verbatim>\<open>erase\<close> puts the right
  child of \<open>s\<close> in the place of \<open>s\<close> (under the old parent of \<open>s\<close>, or under \<open>s\<close> itself when
  \<open>s\<close> was the right child of \<open>a\<close>), gives \<open>s\<close> the parent, left child and height of \<open>a\<close> (and
  its right child, unless that was \<open>s\<close>), and names as the start of the rebalance walk the old
  parent of \<open>s\<close>, or \<open>s\<close> when that parent was \<open>a\<close>. \<^verbatim>\<open>erase\<close> then returns with the size one
  less (modulo \<open>2^64\<close>), \<open>a\<close> gone from the in-order sequence, every other linked node found by
  its value and the value of \<open>a\<close> not found.
\<close>

theorem erase_two_children:
  assumes w: "wf_tree t T" and so: "sorted_wrt (<) (vals t T)"
    and h: "heights_ok t T" and b: "size T < 2 ^ 31"
    and a: "a \<in> set_tree T" and la: "left_of t a \<noteq> None" and ra: "right_of t a = Some y"
  shows "\<exists>s xs ys start t1 t' T'.
      inorder T = xs @ a # s # ys \<and> leftmost t y = Some s \<and> left_of t s = None \<and>
      (\<forall>p. parent_of t s = Some p \<longrightarrow>
           (if left_of t p = Some s then left_of (splice_out s t) p else right_of (splice_out s t) p)
           = right_of t s) \<and>
      (\<forall>c. right_of t s = Some c \<longrightarrow> parent_of (splice_out s t) c = parent_of t s) \<and>
      take_place s a (splice_out s t) = Some t1 \<and>
      parent_of t1 s = parent_of t a \<and> left_of t1 s = left_of t a \<and>
      height_of t1 s = height_of t a \<and> right_of t1 s = right_of (splice_out s t) a \<and>
      right_of (splice_out s t) a = (if parent_of t s = Some a then right_of t s else right_of t a) \<and>
      erase_unlink a t = Some (start, t1) \<and>
      start = (if parent_of t s = Some a then Some s else parent_of t s) \<and>
      (\<forall>p. parent_of t s = Some p \<and> p \<noteq> a \<longrightarrow> left_of t1 p = right_of t s) \<and>
      (\<forall>c. right_of t s = Some c \<longrightarrow> parent_of t1 c = start) \<and>
      erase a t = Some t' \<and> size_avl t' = size_avl t - 1 \<and>
      wf_tree t' T' \<and> inorder T' = xs @ s # ys \<and> heights_ok t' T' \<and>
      (\<forall>b\<in>set_tree T. b \<noteq> a \<longrightarrow> find_avl t' (val (nodes t b)) = Some (Some b)) \<and>
      find_avl t' (val (nodes t a)) = Some None"
proof -
  from tree_decompose[OF a] obtain C l r where T: "T = plug C (Node l a r)" by blast
  from w have wt: "is_tree t (root t) None T" and d: "distinct (inorder T)"
    by (auto simp: wf_tree_def)
  from is_tree_plug_node[OF wt[unfolded T]]
  have c: "is_ctx t C (Some a) (parent_of t a)"
    and ta: "is_tree t (Some a) (parent_of t a) (Node l a r)"
    by auto
  from ta la ra have l: "l \<noteq> Leaf" and r: "r \<noteq> Leaf" by auto
  from erase_unlink_two_children[OF c ta l r d[unfolded T]] ra
  obtain D s srr t1 where sp: "left_spine D" and R: "r = plug D (Node Leaf s srr)"
    and lm: "leftmost t y = Some s"
    and psD: "parent_of t s = (case D of [] \<Rightarrow> Some a | LeftOf p sib # D' \<Rightarrow> Some p | _ \<Rightarrow> None)"
    and ts: "is_tree t (Some s) (parent_of t s) (Node Leaf s srr)"
    and c2: "is_ctx (splice_out s t) (D @ RightOf l a # C) (right_of t s) (parent_of t s)"
    and s2: "is_tree (splice_out s t) (right_of t s) (parent_of t s) srr"
    and tp: "take_place s a (splice_out s t) = Some t1"
    and r1: "right_of t1 s = right_of (splice_out s t) a"
    and eu: "erase_unlink a t = Some (if parent_of t s = Some a then Some s else parent_of t s, t1)"
    and w1: "is_tree t1 (root t1) None (plug C (Node l s (plug D srr)))"
    and f1: "parent_of t1 s = parent_of t a" "left_of t1 s = left_of t a"
      "height_of t1 s = height_of t a"
    and ho: "\<forall>b. b \<noteq> s \<longrightarrow> height_of t1 b = height_of t b"
    and e1: "same_except (set_tree (plug C (Node l a r))) t t1"
    by auto
  let ?start = "if parent_of t s = Some a then Some s else parent_of t s"
  let ?T1 = "plug C (Node l s (plug D srr))"
  let ?xs = "ctx_before C @ inorder l"
  let ?ys = "inorder srr @ ctx_after D @ ctx_after C"
  have io: "inorder T = ?xs @ a # s # ?ys"
    using sp unfolding T R by (simp add: inorder_plug left_spine_before)
  have io1: "inorder ?T1 = ?xs @ s # ?ys"
    using sp by (simp add: inorder_plug left_spine_before)
  have ls: "left_of t s = None" using ts by simp
  have ar: "a \<notin> set_tree r" using d unfolding T by (auto simp: inorder_plug)
  have start: "?start = (case D of [] \<Rightarrow> Some s | LeftOf p sib # D' \<Rightarrow> Some p | _ \<Rightarrow> None)"
  proof (cases D rule: left_spine.cases)
    case 1
    with psD show ?thesis by simp
  next
    case (2 p sib D')
    then have "p \<in> set_tree r" unfolding R by (simp add: set_tree_plug)
    with ar psD 2 show ?thesis by auto
  next
    case (3 sib p D')
    with sp show ?thesis by simp
  qed
  text \<open>The links around \<open>s\<close> and its right child after the relinking.\<close>
  have srr1: "\<exists>q. is_tree t1 (right_of t s) q srr \<and> (srr \<noteq> Leaf \<longrightarrow> q = ?start) \<and>
      (\<forall>p. parent_of t s = Some p \<and> p \<noteq> a \<longrightarrow> left_of t1 p = right_of t s) \<and>
      right_of t1 s = (if parent_of t s = Some a then right_of t s else right_of t a)"
  proof (cases D rule: left_spine.cases)
    case 1
    from is_tree_plug_node[OF w1[unfolded 1, simplified]]
    have "is_tree t1 (right_of t1 s) (Some s) srr" by simp
    moreover from this ts have "right_of t1 s = right_of t s"
      by (auto dest!: is_tree_root_ptr)
    ultimately show ?thesis using psD 1 by auto
  next
    case (2 p sib D')
    have pl1: "?T1 = plug (D' @ RightOf l s # C) (Node srr p sib)" using 2 by (simp add: plug_append)
    from is_tree_plug_node[OF w1[unfolded pl1]]
    have x: "is_tree t1 (left_of t1 p) (Some p) srr" by simp
    moreover from this ts have lp: "left_of t1 p = right_of t s"
      by (auto dest!: is_tree_root_ptr)
    moreover have "p \<in> set_tree r" using 2 unfolding R by (simp add: set_tree_plug)
    with ar have pa: "p \<noteq> a" by auto
    moreover from is_tree_plug_node[OF w1] have "is_tree t1 (right_of t1 s) (Some s) (plug D srr)"
      by simp
    then have "right_of t1 s = root_ptr (plug D srr)" by (rule is_tree_root_ptr)
    moreover from ta have "right_of t a = root_ptr r" by (auto dest!: is_tree_root_ptr)
    moreover have "root_ptr (plug D srr) = root_ptr r"
      unfolding R using 2 by (intro root_ptr_plug) simp
    ultimately show ?thesis using psD 2 by auto
  next
    case (3 sib p D')
    with sp show ?thesis by simp
  qed
  then have child: "\<forall>c. right_of t s = Some c \<longrightarrow> parent_of t1 c = ?start"
    by (cases srr) auto
  text \<open>The rebalance walk.\<close>
  from erase_rebalance[OF sp w1 d[unfolded T R] f1(3) ho h[unfolded T R] b[unfolded T R]]
  obtain n0 t2 T' where n0: "?start = Some n0" and rb: "rebalance_loop (Some n0) t1 = Some t2"
    and w2: "wf_tree t2 T'" and i2: "inorder T' = inorder ?T1" and h2: "heights_ok t2 T'"
    and e2: "same_except (set_tree ?T1) t1 t2"
    unfolding start by blast
  let ?t' = "t2\<lparr>mSize := mSize t2 - 1\<rparr>"
  have er: "erase a t = Some ?t'"
    using eu n0 rb by (simp add: erase_def rebalance_def)
  have v: "\<forall>b. val (nodes ?t' b) = val (nodes t b)" and m: "mSize t2 = mSize t"
    using e1 e2 by (auto simp: same_except_def)
  have w': "wf_tree ?t' T'" using w2 by simp
  have so': "sorted_wrt (<) (vals ?t' T')"
    using so v i2 unfolding vals_def io io1
    by (simp add: sorted_wrt_append)
  have fnd: "find_avl ?t' (val (nodes t b)) = Some (Some b)" if "b \<in> set_tree T" "b \<noteq> a" for b
  proof -
    from that have "b \<in> set_tree T'"
      using arg_cong[OF io, of set] arg_cong[OF i2[unfolded io1], of set] by auto
    from find_avl_member[OF w' so' this] v show ?thesis by simp
  qed
  have "val (nodes t a) \<notin> set (vals ?t' T')"
    using so v i2 unfolding vals_def io io1
    by (auto simp: sorted_wrt_append)
  then have nf: "find_avl ?t' (val (nodes t a)) = Some None"
    using w' by (rule find_avl_absent[rotated])
  from srr1 have b1: "\<forall>p. parent_of t s = Some p \<and> p \<noteq> a \<longrightarrow> left_of t1 p = right_of t s"
    and rs1: "right_of t1 s = (if parent_of t s = Some a then right_of t s else right_of t a)"
    by blast+
  text \<open>The state between the two relinking steps.\<close>
  have b2: "\<forall>p. parent_of t s = Some p \<longrightarrow>
      (if left_of t p = Some s then left_of (splice_out s t) p else right_of (splice_out s t) p)
      = right_of t s"
  proof (cases D rule: left_spine.cases)
    case 1
    have "left_of t a \<noteq> Some s"
    proof
      assume "left_of t a = Some s"
      with ta have "s \<in> set_tree l" by (auto dest: is_tree_root_mem)
      moreover have "s \<in> set_tree r" unfolding R by (simp add: set_tree_plug)
      ultimately show False using d unfolding T by (auto simp: inorder_plug)
    qed
    with c2 psD 1 show ?thesis by simp
  next
    case (2 p sib D')
    have "T = plug (D' @ RightOf l a # C) (Node (Node Leaf s srr) p sib)"
      unfolding T R 2 by (simp add: plug_append)
    from is_tree_plug_node[OF wt[unfolded this]] have "left_of t p = Some s" by simp
    with c2[unfolded psD 2] psD 2 show ?thesis by simp
  next
    case (3 sib p D')
    with sp show ?thesis by simp
  qed
  have c2': "\<forall>c. right_of t s = Some c \<longrightarrow> parent_of (splice_out s t) c = parent_of t s"
    using s2 by (cases srr) auto
  have rs2: "right_of (splice_out s t) a = (if parent_of t s = Some a then right_of t s else right_of t a)"
    using r1 rs1 by simp
  show ?thesis
    using io lm ls eu b1 child f1 r1 rs2 b2 c2' tp er m w' i2[unfolded io1] h2 fnd nf
    by (intro exI[of _ s] exI[of _ ?xs] exI[of _ ?ys] exI[of _ ?start] exI[of _ t1]
        exI[of _ ?t'] exI[of _ T']) (simp add: size_avl_def)
qed

theorem erase_two_children_witness:
  "\<exists>t t'. insert_all [10, 5, 15, 3, 7, 12, 20] (avl_tree_init (\<lambda>a. a)) = Some t \<and>
      wf_tree t \<langle>\<langle>\<langle>\<langle>\<rangle>, 3, \<langle>\<rangle>\<rangle>, 5, \<langle>\<langle>\<rangle>, 7, \<langle>\<rangle>\<rangle>\<rangle>, 10, \<langle>\<langle>\<langle>\<rangle>, 12, \<langle>\<rangle>\<rangle>, 15, \<langle>\<langle>\<rangle>, 20, \<langle>\<rangle>\<rangle>\<rangle>\<rangle> \<and>
      left_of t 10 = Some 5 \<and> right_of t 10 = Some 15 \<and>
      erase 10 t = Some t' \<and> size_avl t' = size_avl t - 1 \<and>
      find_avl t' 10 = Some None \<and> find_avl t' 5 = Some (Some 5) \<and>
      find_avl t' 15 = Some (Some 15) \<and> find_avl t' 3 = Some (Some 3) \<and>
      find_avl t' 7 = Some (Some 7) \<and> find_avl t' 12 = Some (Some 12) \<and>
      find_avl t' 20 = Some (Some 20)"
proof -
  let ?T = "\<langle>\<langle>\<langle>\<langle>\<rangle>, 3, \<langle>\<rangle>\<rangle>, 5, \<langle>\<langle>\<rangle>, 7, \<langle>\<rangle>\<rangle>\<rangle>, 10, \<langle>\<langle>\<langle>\<rangle>, 12, \<langle>\<rangle>\<rangle>, 15, \<langle>\<langle>\<rangle>, 20, \<langle>\<rangle>\<rangle>\<rangle>\<rangle> :: addr tree"
  have "case insert_all [10, 5, 15, 3, 7, 12, 20] (avl_tree_init (\<lambda>a. a)) of None \<Rightarrow> False
        | Some t \<Rightarrow> wf_tree t ?T \<and> vals t ?T = [3, 5, 7, 10, 12, 15, 20] \<and> heights_ok t ?T \<and>
            left_of t 10 = Some 5 \<and> right_of t 10 = Some 15 \<and>
            map (\<lambda>a. val (nodes t a)) [3, 5, 7, 10, 12, 15, 20] = [3, 5, 7, 10, 12, 15, 20]"
    by code_simp
  then obtain t where t: "insert_all [10, 5, 15, 3, 7, 12, 20] (avl_tree_init (\<lambda>a. a)) = Some t"
      "wf_tree t ?T" "vals t ?T = [3, 5, 7, 10, 12, 15, 20]" "heights_ok t ?T"
      "left_of t 10 = Some 5" "right_of t 10 = Some 15"
      "map (\<lambda>a. val (nodes t a)) [3, 5, 7, 10, 12, 15, 20] = [3, 5, 7, 10, 12, 15, 20]"
    by (auto split: option.splits)
  have a: "10 \<in> set_tree ?T" and b: "size ?T < 2 ^ 31" by simp_all
  have so: "sorted_wrt (<) (vals t ?T)" using t(3) by simp
  have la: "left_of t 10 \<noteq> None" using t(5) by simp
  from erase_two_children[OF t(2) so t(4) b a la t(6)] t
  show ?thesis
    by (simp del: insert_all.simps) blast
qed

section \<open>Where the code departs from the specification\<close>

text \<open>
  C1 (the code departs from it). \<^verbatim>\<open>insert_or_replace\<close> asks \<^verbatim>\<open>value_comp()(*current, *node)\<close>
  first, so it goes left when the incoming value is greater than the current one, the
  opposite of \<^verbatim>\<open>insert_unique\<close>, \<^verbatim>\<open>insert_multi\<close> and \<^verbatim>\<open>find\<close>. Into the tree holding the one
  value 1, the node with the value 2 is linked as the left child of 1, and \<^verbatim>\<open>find(2)\<close> then
  looks to the right of 1 and returns null.
\<close>

theorem insert_or_replace_links_greater_value_left:
  "do { (_, t1) \<leftarrow> insert_unique 1 (avl_tree_init (\<lambda>a. a));
        (victim, t2) \<leftarrow> insert_or_replace 2 t1;
        found \<leftarrow> find_avl t2 2;
        Some (victim, is_tree t2 (root t2) None \<langle>\<langle>\<langle>\<rangle>, 2, \<langle>\<rangle>\<rangle>, 1, \<langle>\<rangle>\<rangle>, vals t2 \<langle>\<langle>\<langle>\<rangle>, 2, \<langle>\<rangle>\<rangle>, 1, \<langle>\<rangle>\<rangle>,
              left_of t2 1, right_of t2 1, found) }
   = Some (None, True, [2, 1], Some 2, None, None)"
  by code_simp

text \<open>
  C2 (the code departs from it). The first branch of \<^verbatim>\<open>insert_or_replace\<close> makes the node
  the root and returns without \<^verbatim>\<open>mSize += 1\<close>, which the first branches of
  \<^verbatim>\<open>insert_unique\<close> and \<^verbatim>\<open>insert_multi\<close> have: after it the tree has a root and one linked
  node, and \<^verbatim>\<open>size()\<close> is 0.
\<close>

theorem insert_or_replace_into_empty_leaves_size_0:
  "do { (victim, t1) \<leftarrow> insert_or_replace 1 (avl_tree_init (\<lambda>a. a));
        Some (victim, root t1, is_tree t1 (root t1) None \<langle>\<langle>\<rangle>, 1, \<langle>\<rangle>\<rangle>, size_avl t1) }
   = Some (None, Some 1, True, 0)"
  by code_simp

text \<open>
  C3 (the code departs from it). \<^verbatim>\<open>empty()\<close> returns \<^verbatim>\<open>mSize\<close> converted to \<^verbatim>\<open>bool\<close>, which is
  true when the size is not 0: the fresh tree is reported as not empty, and a tree with one
  node as empty.
\<close>

theorem empty_is_inverted:
  "\<not> empty_avl (avl_tree_init (\<lambda>a. a)) \<and> size_avl (avl_tree_init (\<lambda>a. a)) = 0 \<and>
   do { (_, t1) \<leftarrow> insert_unique 1 (avl_tree_init (\<lambda>a. a));
        Some (empty_avl t1, size_avl t1, root t1) } = Some (True, 1, Some 1)"
  by code_simp

text \<open>
  C4 (the code departs from it). \<^verbatim>\<open>rebalance\<close> leaves its loop as soon as the recomputed
  height equals the stored one, before it looks at the difference of the children's heights.
  When \<^verbatim>\<open>erase\<close> removes a node from the lower side of its parent, the parent's height stays
  and so does the imbalance. After \<^verbatim>\<open>insert_unique\<close> of 2, 1, 3, 4 and \<^verbatim>\<open>erase\<close> of 1, the root
  2 has no left child and a right child of height 2.
\<close>

theorem erase_leaves_root_unbalanced:
  "do { (_, t1) \<leftarrow> insert_unique 2 (avl_tree_init (\<lambda>a. a));
        (_, t2) \<leftarrow> insert_unique 1 t1;
        (_, t3) \<leftarrow> insert_unique 3 t2;
        (_, t4) \<leftarrow> insert_unique 4 t3;
        t5 \<leftarrow> erase 1 t4;
        Some (is_tree t5 (root t5) None \<langle>\<langle>\<rangle>, 2, \<langle>\<langle>\<rangle>, 3, \<langle>\<langle>\<rangle>, 4, \<langle>\<rangle>\<rangle>\<rangle>\<rangle>,
              height_or_0 t5 (left_of t5 2), height_or_0 t5 (right_of t5 2), height_of t5 2) }
   = Some (True, 0, 2, 3)"
  by code_simp

text \<open>
  The reversed descent of \<^verbatim>\<open>insert_or_replace\<close> breaks the other half of the invariant:
  after \<^verbatim>\<open>insert_or_replace\<close> of 1 and of 2 the in-order traversal meets 2 before 1.
\<close>

lemma insert_or_replace_breaks_order:
  "do { (_, t1) \<leftarrow> insert_or_replace 1 (avl_tree_init (\<lambda>a. a));
        (_, t2) \<leftarrow> insert_or_replace 2 t1;
        Some (is_tree t2 (root t2) None \<langle>\<langle>\<langle>\<rangle>, 2, \<langle>\<rangle>\<rangle>, 1, \<langle>\<rangle>\<rangle>, vals t2 \<langle>\<langle>\<langle>\<rangle>, 2, \<langle>\<rangle>\<rangle>, 1, \<langle>\<rangle>\<rangle>) }
   = Some (True, [2, 1])"
  by code_simp

end
